theory Spec2Isabelle
  imports Main
begin

section \<open>Data model of \<open>src/context.ts\<close>\<close>

text \<open>
  \<open>ErrorType = Error | null\<close> is \<open>err option\<close>. The module exports two error objects,
  \<open>cancelledErr\<close> and \<open>deadlineExceededErr\<close>; a context implemented outside the module
  may report any other \<open>Error\<close> object, which is \<open>foreignErr\<close>. Every \<open>Error\<close> object is
  truthy, so \<open>if (err)\<close> is the test \<open>err \<noteq> None\<close>.
\<close>

datatype err = cancelledErr | deadlineExceededErr | foreignErr nat

text \<open>
  Promises are compared by identity only (\<open>parent.done() === blockForever\<close>):
  the two module constants, the promise a node created for itself in \<open>done()\<close>,
  and promises of foreign contexts.
\<close>

text \<open>
  A \<open>Date\<close> object is its time value: a whole number of milliseconds, or NaN for
  an Invalid Date. \<open>a < b\<close> on two dates compares the time values and is false
  when either is NaN. \<open>new Date(x)\<close> clips: a number that is not finite or
  whose magnitude is above 8.64e15 gives an Invalid Date. The argument of
  \<open>withTimeout\<close> is a JavaScript number, and \<open>Date.now()\<close> is a whole number.
  The model has the whole numbers and one value for NaN and the infinities, and
  \<open>Date.now() + timeout\<close> is \<open>number_plus\<close>. A timeout with a fraction adds nothing:
  the constructor truncates the sum, so the date is that of a whole timeout.
\<close>

datatype date = Date int | Invalid_Date

datatype number = Finite int | NonFinite

fun date_less :: "date \<Rightarrow> date \<Rightarrow> bool" where
  "date_less (Date a) (Date b) = (a < b)"
| "date_less _ _ = False"

fun number_plus :: "int \<Rightarrow> number \<Rightarrow> number" where
  "number_plus now (Finite t) = Finite (now + t)"
| "number_plus now NonFinite = NonFinite"

fun new_Date :: "number \<Rightarrow> date" where
  "new_Date (Finite v) = (if \<bar>v\<bar> \<le> 8640000000000000 then Date v else Invalid_Date)"
| "new_Date NonFinite = Invalid_Date"

text \<open>
  \<open>const d = deadline.getTime() - Date.now()\<close> followed by the test \<open>d <= 0\<close>:
  with an Invalid Date \<open>d\<close> is NaN and the test is false.
\<close>

fun passed :: "date \<Rightarrow> int \<Rightarrow> bool" where
  "passed (Date t) now = (t - now \<le> 0)"
| "passed Invalid_Date now = False"

datatype promise = blockForever | alwaysResolve | ownPromise nat | foreignPromise nat

text \<open>
  A \<open>Context\<close> value is the singleton \<open>backgroundCtx\<close> (class \<open>EmptyCtx\<close>), a reference
  to a \<open>CancelCtx\<close>/\<open>TimerCtx\<close> object of the heap, or an implementation of the
  interface from outside the module, given by what its \<open>deadline()\<close>, \<open>done()\<close> and
  \<open>error()\<close> answer when a context is derived from it. The derivations call only the
  first two; \<open>error()\<close> is read later, in the callback of the promise race.
\<close>

datatype ctx = backgroundCtx | Ref nat | Foreign "date option" promise "err option"

datatype cls = CancelCtx | TimerCtx

text \<open>
  The fields \<open>_done\<close> and \<open>resolve\<close> of \<open>CancelCtx\<close> together: \<open>Unset\<close> is
  \<open>_done === undefined\<close> (then \<open>resolve\<close> is undefined too), \<open>Own b\<close> is the promise
  created by \<open>done()\<close> with its \<open>resolve\<close> function stored, \<open>b\<close> telling whether
  \<open>resolve\<close> has been called, and \<open>Shared\<close> is \<open>_done === alwaysResolve\<close>, where
  \<open>resolve\<close> is still undefined.
\<close>

datatype done_slot = Unset | Own bool | Shared

text \<open>
  One object of class \<open>CancelCtx\<close> or \<open>TimerCtx\<close>. \<open>children\<close> is \<open>None\<close> while the
  field is undefined; a \<open>Set\<close> is a duplicate-free list in insertion order, which is
  the order a \<open>for ... of\<close> loop visits it.
  \<open>deadline_field\<close> and \<open>timer\<close> are the fields \<open>_deadline\<close> and \<open>timer\<close> of \<open>TimerCtx\<close>;
  no method of a \<open>CancelCtx\<close> reads them.
\<close>

record node =
  cls :: cls
  parent :: ctx
  err :: "err option"
  done_field :: done_slot
  children :: "nat list option"
  deadline_field :: date
  timer :: "nat option"

text \<open>
  The program state: the objects allocated so far (a reference is an index),
  the timers of the runtime that are scheduled and have neither fired nor been
  cleared (handle and the node whose callback it runs), the next handle
  \<open>setTimeout\<close> returns, and the promise races set up by \<open>propagateCancel\<close>
  (parent and child) whose \<open>then\<close> callback may still run.
\<close>

record state =
  heap :: "node list"
  pending :: "(nat \<times> nat) list"
  next_timer :: nat
  races :: "(ctx \<times> nat) list"

datatype exn = MissingCancelError | ResolveNotAFunction

datatype 'a outcome = Return 'a | Throw exn

definition upd :: "state \<Rightarrow> nat \<Rightarrow> (node \<Rightarrow> node) \<Rightarrow> state" where
  "upd s c f = s\<lparr>heap := (heap s)[c := f (heap s ! c)]\<rparr>"

definition kids :: "state \<Rightarrow> nat \<Rightarrow> nat list" where
  "kids s c = (case children (heap s ! c) of None \<Rightarrow> [] | Some cs \<Rightarrow> cs)"

definition live :: "state \<Rightarrow> nat \<Rightarrow> bool" where
  "live s c = (err (heap s ! c) = None)"

section \<open>Operations\<close>

text \<open>\<open>parentCancelCtx\<close>: \<open>parent instanceof CancelCtx\<close>, true of both node classes.\<close>

fun parentCancelCtx :: "ctx \<Rightarrow> nat option" where
  "parentCancelCtx (Ref p) = Some p"
| "parentCancelCtx _ = None"

text \<open>\<open>removeChild\<close>: \<open>p.children.delete(child)\<close> when \<open>p\<close> is a node with a child set.\<close>

definition removeChild :: "state \<Rightarrow> ctx \<Rightarrow> nat \<Rightarrow> state" where
  "removeChild s par child =
     (case parentCancelCtx par of
        None \<Rightarrow> s
      | Some p \<Rightarrow>
          (case children (heap s ! p) of
             None \<Rightarrow> s
           | Some cs \<Rightarrow> upd s p (\<lambda>n. n\<lparr>children := Some (removeAll child cs)\<rparr>)))"

text \<open>
  The settling of the promise in \<open>CancelCtx.cancel\<close>:
  \<open>if (!this._done) this._done = alwaysResolve; else this.resolve();\<close>.
  With \<open>_done === alwaysResolve\<close> the field \<open>resolve\<close> is undefined and the call is a
  \<open>TypeError\<close>.
\<close>

definition resolveDone :: "state \<Rightarrow> nat \<Rightarrow> unit outcome \<times> state" where
  "resolveDone s c =
     (case done_field (heap s ! c) of
        Unset \<Rightarrow> (Return (), upd s c (\<lambda>n. n\<lparr>done_field := Shared\<rparr>))
      | Own b \<Rightarrow> (Return (), upd s c (\<lambda>n. n\<lparr>done_field := Own True\<rparr>))
      | Shared \<Rightarrow> (Throw ResolveNotAFunction, s))"

text \<open>
  The tail of \<open>TimerCtx.cancel\<close>:
  \<open>if (this.timer) { clearTimeout(this.timer); this.timer = undefined; }\<close>.
\<close>

definition clearTimer :: "state \<Rightarrow> nat \<Rightarrow> state" where
  "clearTimer s c =
     (case timer (heap s ! c) of
        None \<Rightarrow> s
      | Some h \<Rightarrow> (upd s c (\<lambda>n. n\<lparr>timer := None\<rparr>))\<lparr>pending := filter (\<lambda>e. fst e \<noteq> h) (pending s)\<rparr>)"

text \<open>
  \<open>CancelCtx_cancel\<close> is the method \<open>CancelCtx.cancel\<close>, \<open>cancel\<close> is the virtual
  call \<open>child.cancel(...)\<close> (for a \<open>TimerCtx\<close>: \<open>super.cancel\<close>, then the timer is
  cleared; a throw of \<open>super.cancel\<close> skips the rest), and \<open>cancelChildren\<close> is the
  loop \<open>for (const child of this.children) child.cancel(false, err)\<close>. A thrown
  exception leaves the state as it was at the throw. A reference always denotes
  an allocated object; for an index outside the heap, which no execution
  produces, the model returns the state as it is.
\<close>

function CancelCtx_cancel :: "state \<Rightarrow> nat \<Rightarrow> bool \<Rightarrow> err option \<Rightarrow> unit outcome \<times> state"
  and cancel :: "state \<Rightarrow> nat \<Rightarrow> bool \<Rightarrow> err option \<Rightarrow> unit outcome \<times> state"
  and cancelChildren :: "state \<Rightarrow> nat list \<Rightarrow> err \<Rightarrow> unit outcome \<times> state"
where
  "CancelCtx_cancel s c removeFromParent e =
     (case e of
        None \<Rightarrow> (Throw MissingCancelError, s)
      | Some r \<Rightarrow>
          if length (heap s) \<le> c \<or> err (heap s ! c) \<noteq> None then (Return (), s)
          else
            (case resolveDone (upd s c (\<lambda>n. n\<lparr>err := Some r\<rparr>)) c of
               (Throw x, s1) \<Rightarrow> (Throw x, s1)
             | (Return _, s1) \<Rightarrow>
                 (case cancelChildren s1 (kids s1 c) r of
                    (Throw x, s2) \<Rightarrow> (Throw x, s2)
                  | (Return _, s2) \<Rightarrow>
                      (Return (),
                       if removeFromParent then removeChild s2 (parent (heap s2 ! c)) c else s2))))"
| "cancel s c removeFromParent e =
     (case CancelCtx_cancel s c removeFromParent e of
        (Throw x, s1) \<Rightarrow> (Throw x, s1)
      | (Return _, s1) \<Rightarrow>
          (Return (),
           if c < length (heap s1) \<and> cls (heap s1 ! c) = TimerCtx then clearTimer s1 c else s1))"
| "cancelChildren s [] r = (Return (), s)"
| "cancelChildren s (c # cs) r =
     (case cancel s c False (Some r) of
        (Throw x, s1) \<Rightarrow> (Throw x, s1)
      | (Return _, s1) \<Rightarrow> cancelChildren s1 cs r)"
  by pat_completeness auto

text \<open>The methods \<open>deadline()\<close>, \<open>done()\<close> and \<open>error()\<close> of the three kinds of context.
  \<open>done()\<close> of a node creates its promise on the first call.\<close>

fun ctx_deadline :: "state \<Rightarrow> ctx \<Rightarrow> date option" where
  "ctx_deadline s backgroundCtx = None"
| "ctx_deadline s (Ref c) =
     (case cls (heap s ! c) of
        CancelCtx \<Rightarrow> None
      | TimerCtx \<Rightarrow> Some (deadline_field (heap s ! c)))"
| "ctx_deadline s (Foreign d p e) = d"

fun ctx_error :: "state \<Rightarrow> ctx \<Rightarrow> err option" where
  "ctx_error s backgroundCtx = None"
| "ctx_error s (Ref c) = err (heap s ! c)"
| "ctx_error s (Foreign d p e) = e"

fun ctx_done :: "state \<Rightarrow> ctx \<Rightarrow> promise \<times> state" where
  "ctx_done s backgroundCtx = (blockForever, s)"
| "ctx_done s (Ref c) =
     (case done_field (heap s ! c) of
        Unset \<Rightarrow> (ownPromise c, upd s c (\<lambda>n. n\<lparr>done_field := Own False\<rparr>))
      | Own b \<Rightarrow> (ownPromise c, s)
      | Shared \<Rightarrow> (alwaysResolve, s))"
| "ctx_done s (Foreign d p e) = (p, s)"

text \<open>\<open>Set.add\<close>, with \<open>if (!p.children) p.children = new Set()\<close> before it.\<close>

definition addChild :: "nat list option \<Rightarrow> nat \<Rightarrow> nat list option" where
  "addChild cs child =
     (case cs of
        None \<Rightarrow> Some [child]
      | Some xs \<Rightarrow> Some (if child \<in> set xs then xs else xs @ [child]))"

text \<open>
  \<open>propagateCancel\<close>. In the last branch the two \<open>done()\<close> calls are made and the
  race is recorded; its callback runs in a later turn (event \<open>RaceSettles\<close> below).
\<close>

definition propagateCancel :: "state \<Rightarrow> ctx \<Rightarrow> nat \<Rightarrow> unit outcome \<times> state" where
  "propagateCancel s par child =
     (case ctx_done s par of
        (pd, s1) \<Rightarrow>
          if pd = blockForever then (Return (), s1)
          else
            (case parentCancelCtx par of
               Some p \<Rightarrow>
                 (case err (heap s1 ! p) of
                    Some e \<Rightarrow> cancel s1 child False (Some e)
                  | None \<Rightarrow>
                      (Return (), upd s1 p (\<lambda>n. n\<lparr>children := addChild (children n) child\<rparr>)))
             | None \<Rightarrow>
                 (case ctx_done s1 par of
                    (_, s2) \<Rightarrow>
                      (case ctx_done s2 (Ref child) of
                         (_, s3) \<Rightarrow> (Return (), s3\<lparr>races := races s3 @ [(par, child)]\<rparr>)))))"

definition new_CancelCtx :: "ctx \<Rightarrow> node" where
  "new_CancelCtx par =
     \<lparr>cls = CancelCtx, parent = par, err = None, done_field = Unset, children = None,
      deadline_field = Date 0, timer = None\<rparr>"

definition new_TimerCtx :: "ctx \<Rightarrow> date \<Rightarrow> node" where
  "new_TimerCtx par d =
     \<lparr>cls = TimerCtx, parent = par, err = None, done_field = Unset, children = None,
      deadline_field = d, timer = None\<rparr>"

definition alloc :: "state \<Rightarrow> node \<Rightarrow> state" where
  "alloc s n = s\<lparr>heap := heap s @ [n]\<rparr>"

text \<open>
  \<open>withCancel\<close> returns the pair of the new context and its cancel function. The
  cancel function is \<open>() => c.cancel(true, cancelledErr)\<close> for every derivation, so
  the model returns the context and \<open>CancelFunc\<close> is the function of it.
\<close>

definition withCancel :: "state \<Rightarrow> ctx \<Rightarrow> ctx outcome \<times> state" where
  "withCancel s par =
     (let c = length (heap s) in
      case propagateCancel (alloc s (new_CancelCtx par)) par c of
        (Throw x, s1) \<Rightarrow> (Throw x, s1)
      | (Return _, s1) \<Rightarrow> (Return (Ref c), s1))"

fun CancelFunc :: "state \<Rightarrow> ctx \<Rightarrow> unit outcome \<times> state" where
  "CancelFunc s (Ref c) = cancel s c True (Some cancelledErr)"
| "CancelFunc s _ = (Return (), s)"

text \<open>\<open>setTimeout\<close> for the callback \<open>() => c.cancel(true, deadlineExceededErr)\<close>,
  and the assignment of its handle to \<open>c.timer\<close>. The delay only decides when the
  runtime fires the timer, which the model leaves open.\<close>

definition setTimeout :: "state \<Rightarrow> nat \<Rightarrow> state" where
  "setTimeout s c =
     (upd s c (\<lambda>n. n\<lparr>timer := Some (next_timer s)\<rparr>))
       \<lparr>pending := pending s @ [(next_timer s, c)], next_timer := Suc (next_timer s)\<rparr>"

text \<open>
  \<open>withDeadline\<close>; \<open>now\<close> is the value of \<open>Date.now()\<close>. A \<open>Date\<close> object is truthy,
  also an invalid one, so \<open>parentDeadline && parentDeadline < deadline\<close> is the
  comparison of the two dates when the parent has a deadline. \<open>setTimeout\<close> takes
  any delay, NaN too.
\<close>

definition withDeadline :: "state \<Rightarrow> ctx \<Rightarrow> date \<Rightarrow> int \<Rightarrow> ctx outcome \<times> state" where
  "withDeadline s par deadline now =
     (if (case ctx_deadline s par of
            None \<Rightarrow> False
          | Some parentDeadline \<Rightarrow> date_less parentDeadline deadline)
      then withCancel s par
      else
        (let c = length (heap s) in
         case propagateCancel (alloc s (new_TimerCtx par deadline)) par c of
           (Throw x, s1) \<Rightarrow> (Throw x, s1)
         | (Return _, s1) \<Rightarrow>
             if passed deadline now then
               (case cancel s1 c True (Some deadlineExceededErr) of
                  (Throw x, s2) \<Rightarrow> (Throw x, s2)
                | (Return _, s2) \<Rightarrow> (Return (Ref c), s2))
             else if err (heap s1 ! c) = None then (Return (Ref c), setTimeout s1 c)
             else (Return (Ref c), s1)))"

text \<open>\<open>withTimeout\<close>; \<open>Date.now()\<close> is read once here and once in \<open>withDeadline\<close>.\<close>

definition withTimeout :: "state \<Rightarrow> ctx \<Rightarrow> number \<Rightarrow> int \<Rightarrow> int \<Rightarrow> ctx outcome \<times> state" where
  "withTimeout s par timeout now1 now2 =
     withDeadline s par (new_Date (number_plus now1 timeout)) now2"

section \<open>Executions\<close>

text \<open>
  What can happen to a state, one turn of the event loop at a time: a derivation
  from a context that exists, a call of the cancel function of a node, a call of
  \<open>done()\<close>, a scheduled timer firing (the runtime drops the timer and runs its
  callback), and a promise race settling (\<open>cancelChild\<close> tells whether the parent's
  promise won, and the last argument is what \<open>parent.error()\<close> answers then).
  An exception ends the turn and leaves the state as it is at the throw.
\<close>

datatype event =
    WithCancel ctx
  | WithDeadline ctx date int
  | WithTimeout ctx number int int
  | CallCancel nat
  | CallDone ctx
  | TimerFires nat
  | RaceSettles nat bool "err option"

fun valid_ctx :: "state \<Rightarrow> ctx \<Rightarrow> bool" where
  "valid_ctx s (Ref c) = (c < length (heap s))"
| "valid_ctx s _ = True"

fun exec :: "state \<Rightarrow> event \<Rightarrow> state" where
  "exec s (WithCancel par) = (if valid_ctx s par then snd (withCancel s par) else s)"
| "exec s (WithDeadline par d now) =
     (if valid_ctx s par then snd (withDeadline s par d now) else s)"
| "exec s (WithTimeout par t now1 now2) =
     (if valid_ctx s par then snd (withTimeout s par t now1 now2) else s)"
| "exec s (CallCancel c) =
     (if c < length (heap s) then snd (CancelFunc s (Ref c)) else s)"
| "exec s (CallDone k) = (if valid_ctx s k then snd (ctx_done s k) else s)"
| "exec s (TimerFires h) =
     (case find (\<lambda>e. fst e = h) (pending s) of
        None \<Rightarrow> s
      | Some (_, c) \<Rightarrow>
          snd (cancel (s\<lparr>pending := filter (\<lambda>e. fst e \<noteq> h) (pending s)\<rparr>) c True
                 (Some deadlineExceededErr)))"
| "exec s (RaceSettles i cancelChild e) =
     (if i < length (races s) then
        (let child = snd (races s ! i);
             s1 = s\<lparr>races := take i (races s) @ drop (Suc i) (races s)\<rparr>
         in if cancelChild then snd (cancel s1 child False e) else s1)
      else s)"

definition run :: "state \<Rightarrow> event list \<Rightarrow> state" where
  "run s evs = foldl exec s evs"

definition init :: state where
  "init = \<lparr>heap = [], pending = [], next_timer = 1, races = []\<rparr>"

section \<open>Auxiliary notions\<close>

text \<open>The number of nodes that are not settled: the measure of the cascade.\<close>

definition live_count :: "state \<Rightarrow> nat" where
  "live_count s = length (filter (\<lambda>n. err n = None) (heap s))"

text \<open>The subtree of a node: the node and everything reachable through child sets.\<close>

inductive_set desc :: "state \<Rightarrow> nat \<Rightarrow> nat set" for s :: state and c :: nat where
  desc_self: "c \<in> desc s c"
| desc_kid: "m \<in> desc s c \<Longrightarrow> k \<in> set (kids s m) \<Longrightarrow> k \<in> desc s c"

text \<open>
  The states executions keep to. Child sets link a node to nodes allocated after
  it that name it as parent; a live node has only live children and has not had
  \<open>alwaysResolve\<close> assigned, and a settled node has only settled children; only live timer nodes hold a timer handle; handles are
  unique and below the next handle; every scheduled timer is the one its node
  holds; a recorded race is between a node and its parent, which is not a node.
\<close>

definition tree_ok :: "state \<Rightarrow> bool" where
  "tree_ok s \<longleftrightarrow>
     (\<forall>m<length (heap s).
        (\<forall>k\<in>set (kids s m). m < k \<and> k < length (heap s) \<and> parent (heap s ! k) = Ref m) \<and>
        (\<forall>p. parent (heap s ! m) = Ref p \<longrightarrow> p < m))"

definition live_ok :: "state \<Rightarrow> bool" where
  "live_ok s \<longleftrightarrow>
     (\<forall>m<length (heap s).
        (live s m \<longrightarrow>
           (\<forall>k\<in>set (kids s m). live s k) \<and> done_field (heap s ! m) \<noteq> Shared) \<and>
        (\<not> live s m \<longrightarrow> (\<forall>k\<in>set (kids s m). \<not> live s k)))"

definition timers_ok :: "state \<Rightarrow> bool" where
  "timers_ok s \<longleftrightarrow>
     (\<forall>m<length (heap s).
        (\<not> live s m \<or> cls (heap s ! m) = CancelCtx \<longrightarrow> timer (heap s ! m) = None) \<and>
        (\<forall>h. timer (heap s ! m) = Some h \<longrightarrow>
           h < next_timer s \<and>
           (\<forall>k<length (heap s). timer (heap s ! k) = Some h \<longrightarrow> k = m))) \<and>
     (\<forall>(h, c)\<in>set (pending s). c < length (heap s) \<and> timer (heap s ! c) = Some h)"

definition races_ok :: "state \<Rightarrow> bool" where
  "races_ok s \<longleftrightarrow>
     (\<forall>(par, c)\<in>set (races s).
        c < length (heap s) \<and> parent (heap s ! c) = par \<and> parentCancelCtx par = None)"

definition wf_state :: "state \<Rightarrow> bool" where
  "wf_state s \<longleftrightarrow> tree_ok s \<and> live_ok s \<and> timers_ok s \<and> races_ok s"

text \<open>
  How a cancel call may change a state: nothing is allocated or scheduled, the
  class, parent and deadline of every node stay, a settled node keeps its error,
  a node that is still live afterwards keeps its promise and timer, timers are
  only cleared and child sets only shrink.
\<close>

definition evolves :: "state \<Rightarrow> state \<Rightarrow> bool" where
  "evolves s s' \<longleftrightarrow>
     length (heap s') = length (heap s) \<and> next_timer s' = next_timer s \<and> races s' = races s \<and>
     set (pending s') \<subseteq> set (pending s) \<and>
     (\<forall>m. cls (heap s' ! m) = cls (heap s ! m) \<and>
          parent (heap s' ! m) = parent (heap s ! m) \<and>
          deadline_field (heap s' ! m) = deadline_field (heap s ! m) \<and>
          (err (heap s ! m) \<noteq> None \<longrightarrow> err (heap s' ! m) = err (heap s ! m)) \<and>
          (err (heap s' ! m) = None \<longrightarrow>
             done_field (heap s' ! m) = done_field (heap s ! m) \<and>
             timer (heap s' ! m) = timer (heap s ! m)) \<and>
          (timer (heap s' ! m) = None \<or> timer (heap s' ! m) = timer (heap s ! m)) \<and>
          set (kids s' m) \<subseteq> set (kids s m)) \<and>
     (\<forall>(h, m)\<in>set (pending s'). timer (heap s ! m) = Some h \<longrightarrow> timer (heap s' ! m) = Some h)"

text \<open>
  The state \<open>propagateCancel\<close> leaves when it links a node that has just been
  allocated: \<open>settled_leaf\<close> is the cancel of the new node by a settled parent,
  and \<open>linked\<close> is the whole outcome for each kind of parent.
\<close>

definition settled_leaf :: "state \<Rightarrow> nat \<Rightarrow> err \<Rightarrow> state" where
  "settled_leaf s c e = upd s c (\<lambda>n. n\<lparr>err := Some e, done_field := Shared\<rparr>)"

definition fresh :: "node \<Rightarrow> bool" where
  "fresh n \<longleftrightarrow> err n = None \<and> done_field n = Unset \<and> children n = None \<and> timer n = None"

definition linked :: "state \<Rightarrow> node \<Rightarrow> ctx \<Rightarrow> state" where
  "linked s n par =
     (let c = length (heap s); s0 = alloc s n in
      case par of
        backgroundCtx \<Rightarrow> s0
      | Foreign d pr e \<Rightarrow>
          if pr = blockForever then s0
          else (upd s0 c (\<lambda>n. n\<lparr>done_field := Own False\<rparr>))\<lparr>races := races s @ [(par, c)]\<rparr>
      | Ref p \<Rightarrow>
          (case err (heap s ! p) of
             Some e \<Rightarrow> settled_leaf (snd (ctx_done s0 (Ref p))) c e
           | None \<Rightarrow>
               upd (snd (ctx_done s0 (Ref p))) p
                 (\<lambda>n. n\<lparr>children := addChild (children n) c\<rparr>)))"

text \<open>
  What the cascade from a node needs of the node's subtree to run to its end
  and leave the whole subtree with the reason \<open>r\<close>: the subtree lies in the heap,
  children were allocated after their parents, and each node of it is either
  live with a promise that can be resolved, or settled with \<open>r\<close> together with
  everything below it.
\<close>

definition sub_ok :: "state \<Rightarrow> nat \<Rightarrow> err \<Rightarrow> bool" where
  "sub_ok s c r \<longleftrightarrow>
     (\<forall>d\<in>desc s c.
        d < length (heap s) \<and> (\<forall>k\<in>set (kids s d). d < k) \<and>
        (err (heap s ! d) = None \<and> done_field (heap s ! d) \<noteq> Shared \<or>
         (\<forall>d'\<in>desc s d. err (heap s ! d') = Some r)))"

text \<open>
  How any turn may change a state, as far as the nodes that exist are concerned:
  they stay, with their class, parent and deadline, and a settled node keeps its
  error.
\<close>

definition grows :: "state \<Rightarrow> state \<Rightarrow> bool" where
  "grows s s' \<longleftrightarrow>
     length (heap s) \<le> length (heap s') \<and>
     (\<forall>m<length (heap s).
        cls (heap s' ! m) = cls (heap s ! m) \<and>
        parent (heap s' ! m) = parent (heap s ! m) \<and>
        deadline_field (heap s' ! m) = deadline_field (heap s ! m) \<and>
        (err (heap s ! m) \<noteq> None \<longrightarrow> err (heap s' ! m) = err (heap s ! m)))"

section \<open>Example states\<close>

text \<open>
  \<open>ex_pair\<close>: a parent derived from the background context and one child of it.
  \<open>ex_pair_cancelled\<close>: the same after the parent's cancel function has run.
  \<open>ex_timer\<close>: one context made by \<open>withTimeout(background(), 100)\<close> at time 0.
  \<open>ex_foreign\<close>: a context of another implementation that reports an error.
  \<open>ex_family\<close>: a parent, its two children, the first made by \<open>withTimeout\<close>
  and holding a timer, and a child of the first child. \<open>ex_family_cancelled\<close>:
  the same after the parent's cancel function has run. \<open>ex_family_child_cancelled\<close>:
  \<open>ex_family\<close> after the first child's cancel function has run.
\<close>

definition ex_pair :: state where
  "ex_pair =
     \<lparr>heap =
        [\<lparr>cls = CancelCtx, parent = backgroundCtx, err = None,
            done_field = Own False, children = Some [1], deadline_field = Date 0, timer = None\<rparr>,
         \<lparr>cls = CancelCtx, parent = Ref 0, err = None,
            done_field = Unset, children = None, deadline_field = Date 0, timer = None\<rparr>],
      pending = [], next_timer = 1, races = []\<rparr>"

definition ex_pair_cancelled :: state where
  "ex_pair_cancelled =
     \<lparr>heap =
        [\<lparr>cls = CancelCtx, parent = backgroundCtx, err = Some cancelledErr,
            done_field = Own True, children = Some [1], deadline_field = Date 0, timer = None\<rparr>,
         \<lparr>cls = CancelCtx, parent = Ref 0, err = Some cancelledErr,
            done_field = Shared, children = None, deadline_field = Date 0, timer = None\<rparr>],
      pending = [], next_timer = 1, races = []\<rparr>"

definition ex_timer :: state where
  "ex_timer =
     \<lparr>heap =
        [\<lparr>cls = TimerCtx, parent = backgroundCtx, err = None,
            done_field = Unset, children = None, deadline_field = Date 100, timer = Some 1\<rparr>],
      pending = [(1, 0)], next_timer = 2, races = []\<rparr>"


definition ex_family :: state where
  "ex_family =
     \<lparr>heap =
        [\<lparr>cls = CancelCtx, parent = backgroundCtx, err = None,
            done_field = Own False, children = Some [1, 2], deadline_field = Date 0, timer = None\<rparr>,
         \<lparr>cls = TimerCtx, parent = Ref 0, err = None,
            done_field = Own False, children = Some [3], deadline_field = Date 100, timer = Some 1\<rparr>,
         \<lparr>cls = CancelCtx, parent = Ref 0, err = None,
            done_field = Unset, children = None, deadline_field = Date 0, timer = None\<rparr>,
         \<lparr>cls = CancelCtx, parent = Ref 1, err = None,
            done_field = Unset, children = None, deadline_field = Date 0, timer = None\<rparr>],
      pending = [(1, 1)], next_timer = 2, races = []\<rparr>"


definition ex_family_child_cancelled :: state where
  "ex_family_child_cancelled =
     \<lparr>heap =
        [\<lparr>cls = CancelCtx, parent = backgroundCtx, err = None,
            done_field = Own False, children = Some [2], deadline_field = Date 0, timer = None\<rparr>,
         \<lparr>cls = TimerCtx, parent = Ref 0, err = Some cancelledErr,
            done_field = Own True, children = Some [3], deadline_field = Date 100, timer = None\<rparr>,
         \<lparr>cls = CancelCtx, parent = Ref 0, err = None,
            done_field = Unset, children = None, deadline_field = Date 0, timer = None\<rparr>,
         \<lparr>cls = CancelCtx, parent = Ref 1, err = Some cancelledErr,
            done_field = Shared, children = None, deadline_field = Date 0, timer = None\<rparr>],
      pending = [], next_timer = 2, races = []\<rparr>"

text \<open>
  \<open>ex_expired\<close>: a context made by \<open>withTimeout(background(), 100)\<close> and a child
  of it made by \<open>withCancel\<close>, after the timer has fired.
\<close>

definition ex_expired :: state where
  "ex_expired =
     \<lparr>heap =
        [\<lparr>cls = TimerCtx, parent = backgroundCtx, err = Some deadlineExceededErr,
            done_field = Own True, children = Some [1], deadline_field = Date 100,
            timer = None\<rparr>,
         \<lparr>cls = CancelCtx, parent = Ref 0, err = Some deadlineExceededErr,
            done_field = Shared, children = None, deadline_field = Date 0, timer = None\<rparr>],
      pending = [], next_timer = 2, races = []\<rparr>"

section \<open>Termination of the cascade\<close>

text \<open>
  \<open>CancelCtx.cancel\<close> sets \<open>this.err\<close> before it visits the children and returns at
  once on a settled node, so every visit that goes on settles one more node:
  the cascade ends on every heap, also on one whose child sets form a cycle.
\<close>

lemma filter_upd_eq:
  "(i < length xs \<Longrightarrow> P v = P (xs ! i)) \<Longrightarrow> length (filter P (xs[i := v])) = length (filter P xs)"
proof (induction xs arbitrary: i)
  case Nil then show ?case by simp
next
  case (Cons x xs) then show ?case by (cases i) auto
qed

lemma filter_upd_less:
  "i < length xs \<Longrightarrow> P (xs ! i) \<Longrightarrow> \<not> P v \<Longrightarrow> length (filter P (xs[i := v])) < length (filter P xs)"
proof (induction xs arbitrary: i)
  case Nil then show ?case by simp
next
  case (Cons x xs) 
  show ?case
  proof (cases i)
    case 0 with Cons.prems show ?thesis by (simp add: less_Suc_eq_le)
  next
    case (Suc j)
    with Cons.prems have "length (filter P (xs[j := v])) < length (filter P xs)"
      by (intro Cons.IH) auto
    with Suc show ?thesis by simp
  qed
qed

lemma live_count_upd_same:
  "err (f (heap s ! c)) = err (heap s ! c) \<Longrightarrow> live_count (upd s c f) = live_count s"
  by (simp add: live_count_def upd_def filter_upd_eq)

lemma live_count_settle:
  "c < length (heap s) \<Longrightarrow> err (heap s ! c) = None \<Longrightarrow>
   live_count (upd s c (\<lambda>n. n\<lparr>err := Some r\<rparr>)) < live_count s"
  by (simp add: live_count_def upd_def filter_upd_less)

lemma live_count_resolveDone: "live_count (snd (resolveDone s c)) = live_count s"
  by (simp add: resolveDone_def live_count_upd_same split: done_slot.splits)

lemma live_count_removeChild: "live_count (removeChild s p c) = live_count s"
  by (simp add: removeChild_def live_count_upd_same split: option.splits)

lemma live_count_clearTimer: "live_count (clearTimer s c) = live_count s"
  by (simp add: clearTimer_def live_count_def upd_def filter_upd_eq split: option.splits)

lemma cancel_live_count_partial:
  "CancelCtx_cancel_cancel_cancelChildren_dom (Inl (s, c, b, e)) \<Longrightarrow>
     live_count (snd (CancelCtx_cancel s c b e)) \<le> live_count s"
  "CancelCtx_cancel_cancel_cancelChildren_dom (Inr (Inl (s', c', b', e'))) \<Longrightarrow>
     live_count (snd (cancel s' c' b' e')) \<le> live_count s'"
  "CancelCtx_cancel_cancel_cancelChildren_dom (Inr (Inr (s'', cs, r))) \<Longrightarrow>
     live_count (snd (cancelChildren s'' cs r)) \<le> live_count s''"
proof (induction rule: CancelCtx_cancel_cancel_cancelChildren.pinduct)
  case (1 s c removeFromParent e)
  show ?case
  proof (cases e)
    case None
    then show ?thesis using 1(1) by (simp add: CancelCtx_cancel.psimps)
  next
    case (Some r)
    show ?thesis
    proof (cases "length (heap s) \<le> c \<or> err (heap s ! c) \<noteq> None")
      case True
      then show ?thesis using 1(1) Some by (simp add: CancelCtx_cancel.psimps)
    next
      case False
      let ?s0 = "upd s c (\<lambda>n. n\<lparr>err := Some r\<rparr>)"
      obtain x s1 where rd: "resolveDone ?s0 c = (x, s1)" by (cases "resolveDone ?s0 c")
      have l1: "live_count s1 < live_count s"
        using live_count_resolveDone[of ?s0 c] rd live_count_settle[of c s r] False by simp
      show ?thesis
      proof (cases x)
        case (Throw ex)
        then show ?thesis using 1(1) Some False rd l1 by (simp add: CancelCtx_cancel.psimps)
      next
        case (Return u)
        have ih: "live_count (snd (cancelChildren s1 (kids s1 c) r)) \<le> live_count s1"
          using 1(2)[OF Some False rd[symmetric] Return] .
        obtain y s2 where cc: "cancelChildren s1 (kids s1 c) r = (y, s2)"
          by (cases "cancelChildren s1 (kids s1 c) r")
        then show ?thesis using 1(1) Some False rd l1 Return ih
          by (cases y) (simp_all add: CancelCtx_cancel.psimps live_count_removeChild)
      qed
    qed
  qed
next
  case (2 s c removeFromParent e)
  obtain x s1 where cc: "CancelCtx_cancel s c removeFromParent e = (x, s1)"
    by (cases "CancelCtx_cancel s c removeFromParent e")
  then show ?case using 2 by (cases x) (simp_all add: cancel.psimps live_count_clearTimer)
next
  case (3 s r)
  then show ?case by (simp add: cancelChildren.psimps)
next
  case (4 s c cs r)
  obtain x s1 where cc: "cancel s c False (Some r) = (x, s1)"
    by (cases "cancel s c False (Some r)")
  show ?case
  proof (cases x)
    case (Return u)
    have "live_count (snd (cancelChildren s1 cs r)) \<le> live_count s1"
      using 4(3)[OF cc[symmetric] Return] .
    then show ?thesis using 4(1,2) cc Return by (simp add: cancelChildren.psimps)
  next
    case (Throw ex)
    then show ?thesis using 4(1,2) cc by (simp add: cancelChildren.psimps)
  qed
qed

termination CancelCtx_cancel
proof (relation "inv_image (less_than <*lex*> less_than)
    (\<lambda>x. case x of
       Inl (s, c, b, e) \<Rightarrow> (live_count s, 0::nat)
     | Inr (Inl (s, c, b, e)) \<Rightarrow> (live_count s, 1)
     | Inr (Inr (s, cs, r)) \<Rightarrow> (live_count s, 2 + length cs))", goal_cases)
  case 1
  show ?case by (intro wf_inv_image wf_lex_prod wf_less_than)
next
  case (2 s c removeFromParent e x2 x y x1)
  have "y = snd (resolveDone (upd s c (\<lambda>n. n\<lparr>err := Some x2\<rparr>)) c)"
    using arg_cong[OF 2(3), of snd] by simp
  then have "live_count y < live_count s"
    using live_count_resolveDone[of "upd s c (\<lambda>n. n\<lparr>err := Some x2\<rparr>)" c]
      live_count_settle[of c s x2] 2(2)
    by (simp add: not_le)
  then show ?case by simp
next
  case (3 s c removeFromParent e)
  then show ?case by simp
next
  case (4 s c cs r)
  then show ?case by simp
next
  case (5 s c cs r x y x1)
  from 5 have eq: "cancel s c False (Some r) = (x, y)" and
    dom: "CancelCtx_cancel_cancel_cancelChildren_dom (Inr (Inl (s, c, False, Some r)))"
    by simp_all
  have "live_count y \<le> live_count s"
    using cancel_live_count_partial(2)[OF dom] eq by simp
  then show ?case by (auto simp: le_less)
qed

declare CancelCtx_cancel.simps [simp del] cancel.simps [simp del]

section \<open>What a cancel call changes\<close>

lemma heap_upd_nth:
  "heap (upd s c f) ! m = (if m = c \<and> c < length (heap s) then f (heap s ! c) else heap s ! m)"
  by (cases "c < length (heap s)") (auto simp: upd_def not_less list_update_beyond)

lemma upd_fields [simp]:
  "length (heap (upd s c f)) = length (heap s)"
  "pending (upd s c f) = pending s"
  "next_timer (upd s c f) = next_timer s"
  "races (upd s c f) = races s"
  by (simp_all add: upd_def)

lemma kids_upd:
  "kids (upd s c f) m = (if m = c \<and> c < length (heap s)
      then (case children (f (heap s ! c)) of None \<Rightarrow> [] | Some cs \<Rightarrow> cs) else kids s m)"
  by (simp add: kids_def heap_upd_nth)

lemma evolves_refl: "evolves s s"
  by (auto simp: evolves_def)

lemma evolves_trans:
  assumes a: "evolves s s1" and b: "evolves s1 s2"
  shows "evolves s s2"
proof -
  have g: "length (heap s2) = length (heap s)" "next_timer s2 = next_timer s" "races s2 = races s"
    "set (pending s2) \<subseteq> set (pending s)"
    using a b unfolding evolves_def by auto
  have n: "cls (heap s2 ! m) = cls (heap s ! m) \<and>
          parent (heap s2 ! m) = parent (heap s ! m) \<and>
          deadline_field (heap s2 ! m) = deadline_field (heap s ! m) \<and>
          (err (heap s ! m) \<noteq> None \<longrightarrow> err (heap s2 ! m) = err (heap s ! m)) \<and>
          (err (heap s2 ! m) = None \<longrightarrow>
             done_field (heap s2 ! m) = done_field (heap s ! m) \<and>
             timer (heap s2 ! m) = timer (heap s ! m)) \<and>
          (timer (heap s2 ! m) = None \<or> timer (heap s2 ! m) = timer (heap s ! m)) \<and>
          set (kids s2 m) \<subseteq> set (kids s m)" for m
  proof -
    from a have a': "cls (heap s1 ! m) = cls (heap s ! m)"
          "parent (heap s1 ! m) = parent (heap s ! m)"
          "deadline_field (heap s1 ! m) = deadline_field (heap s ! m)"
          "err (heap s ! m) \<noteq> None \<longrightarrow> err (heap s1 ! m) = err (heap s ! m)"
          "err (heap s1 ! m) = None \<longrightarrow>
             done_field (heap s1 ! m) = done_field (heap s ! m) \<and>
             timer (heap s1 ! m) = timer (heap s ! m)"
          "timer (heap s1 ! m) = None \<or> timer (heap s1 ! m) = timer (heap s ! m)"
          "set (kids s1 m) \<subseteq> set (kids s m)"
      unfolding evolves_def by blast+
    from b have b': "cls (heap s2 ! m) = cls (heap s1 ! m)"
          "parent (heap s2 ! m) = parent (heap s1 ! m)"
          "deadline_field (heap s2 ! m) = deadline_field (heap s1 ! m)"
          "err (heap s1 ! m) \<noteq> None \<longrightarrow> err (heap s2 ! m) = err (heap s1 ! m)"
          "err (heap s2 ! m) = None \<longrightarrow>
             done_field (heap s2 ! m) = done_field (heap s1 ! m) \<and>
             timer (heap s2 ! m) = timer (heap s1 ! m)"
          "timer (heap s2 ! m) = None \<or> timer (heap s2 ! m) = timer (heap s1 ! m)"
          "set (kids s2 m) \<subseteq> set (kids s1 m)"
      unfolding evolves_def by blast+
    show ?thesis using a' b' by (cases "err (heap s ! m)"; cases "err (heap s1 ! m)"; auto)
  qed
  have p: "timer (heap s2 ! m) = Some h" if "(h, m) \<in> set (pending s2)" "timer (heap s ! m) = Some h" for h m
  proof -
    have "(h, m) \<in> set (pending s1)" using b that unfolding evolves_def by blast
    then have "timer (heap s1 ! m) = Some h" using a that unfolding evolves_def by blast
    then show ?thesis using b that unfolding evolves_def by blast
  qed
  show ?thesis unfolding evolves_def using g n p by blast
qed

lemma evolves_settle:
  "err (heap s ! c) = None \<Longrightarrow> evolves s (upd s c (\<lambda>n. n\<lparr>err := Some r\<rparr>))"
  by (auto simp: evolves_def heap_upd_nth kids_upd kids_def)

lemma evolves_resolveDone:
  "err (heap s ! c) \<noteq> None \<Longrightarrow> evolves s (snd (resolveDone s c))"
  by (auto simp: resolveDone_def evolves_def heap_upd_nth kids_upd kids_def split: done_slot.splits)

lemma evolves_removeChild: "evolves s (removeChild s par c)"
proof (cases "parentCancelCtx par")
  case None
  then show ?thesis by (simp add: removeChild_def evolves_refl)
next
  case (Some p)
  show ?thesis
  proof (cases "children (heap s ! p)")
    case None
    with Some show ?thesis by (simp add: removeChild_def evolves_refl)
  next
    case (Some cs)
    with \<open>parentCancelCtx par = Some p\<close> show ?thesis
      by (auto simp: removeChild_def evolves_def heap_upd_nth kids_upd kids_def)
  qed
qed

lemma evolves_clearTimer:
  "err (heap s ! c) \<noteq> None \<Longrightarrow> evolves s (clearTimer s c)"
proof (cases "timer (heap s ! c)")
  case None
  then show ?thesis by (simp add: clearTimer_def evolves_refl)
next
  case (Some h)
  assume "err (heap s ! c) \<noteq> None"
  with Some show ?thesis
    by (auto simp: clearTimer_def evolves_def heap_upd_nth kids_def)
qed

lemma cancel_evolves:
  "CancelCtx_cancel s c b e = (x, s') \<Longrightarrow>
     evolves s s' \<and> (x = Return () \<longrightarrow> c < length (heap s) \<longrightarrow> err (heap s' ! c) \<noteq> None)"
  "cancel s1 c1 b1 e1 = (x1, s1') \<Longrightarrow>
     evolves s1 s1' \<and> (x1 = Return () \<longrightarrow> c1 < length (heap s1) \<longrightarrow> err (heap s1' ! c1) \<noteq> None)"
  "cancelChildren s2 cs r = (x2, s2') \<Longrightarrow> evolves s2 s2'"
proof (induction s c b e and s1 c1 b1 e1 and s2 cs r arbitrary: x s' and x1 s1' and x2 s2'
    rule: CancelCtx_cancel_cancel_cancelChildren.induct)
  case (1 s c removeFromParent e)
  show ?case
  proof (cases e)
    case None
    with 1(2) show ?thesis by (auto simp: CancelCtx_cancel.simps evolves_refl)
  next
    case (Some r)
    show ?thesis
    proof (cases "length (heap s) \<le> c \<or> err (heap s ! c) \<noteq> None")
      case True
      with 1(2) Some show ?thesis by (auto simp: CancelCtx_cancel.simps evolves_refl)
    next
      case False
      let ?s0 = "upd s c (\<lambda>n. n\<lparr>err := Some r\<rparr>)"
      obtain y s1 where rd: "resolveDone ?s0 c = (y, s1)" by (cases "resolveDone ?s0 c")
      have e0: "evolves s ?s0" using False by (simp add: evolves_settle)
      have c0: "err (heap ?s0 ! c) \<noteq> None" using False by (simp add: heap_upd_nth)
      have e1: "evolves s s1"
        using evolves_trans[OF e0 evolves_resolveDone[OF c0]] rd by simp
      have c1: "err (heap s1 ! c) \<noteq> None"
        using evolves_resolveDone[OF c0] c0 rd by (simp add: evolves_def)
      show ?thesis
      proof (cases y)
        case (Throw ex)
        with 1(2) Some False rd e1 show ?thesis by (auto simp: CancelCtx_cancel.simps)
      next
        case (Return u)
        obtain z s2 where cc: "cancelChildren s1 (kids s1 c) r = (z, s2)"
          by (cases "cancelChildren s1 (kids s1 c) r")
        have e2: "evolves s1 s2"
          using 1(1)[OF Some False rd[symmetric] Return cc] .
        have c2: "err (heap s2 ! c) \<noteq> None" using e2 c1 by (simp add: evolves_def)
        have e3: "evolves s s2" using evolves_trans[OF e1 e2] .
        show ?thesis
        proof (cases z)
          case (Throw ex)
          with 1(2) Some False rd Return cc e3 show ?thesis by (auto simp: CancelCtx_cancel.simps)
        next
          case (Return v)
          let ?s3 = "removeChild s2 (parent (heap s2 ! c)) c"
          have e4: "evolves s2 ?s3" by (rule evolves_removeChild)
          have "err (heap ?s3 ! c) \<noteq> None" using e4 c2 by (simp add: evolves_def)
          with 1(2) Some False rd \<open>y = Return u\<close> cc Return e3 evolves_trans[OF e3 e4] c2
          show ?thesis by (auto simp: CancelCtx_cancel.simps)
        qed
      qed
    qed
  qed
next
  case (2 s c removeFromParent e)
  obtain y s1 where cc: "CancelCtx_cancel s c removeFromParent e = (y, s1)"
    by (cases "CancelCtx_cancel s c removeFromParent e")
  note ih = 2(1)[OF cc]
  show ?case
  proof (cases y)
    case (Throw ex)
    with 2(2) cc ih show ?thesis by (auto simp: cancel.simps)
  next
    case (Return u)
    show ?thesis
    proof (cases "c < length (heap s1) \<and> cls (heap s1 ! c) = TimerCtx")
      case True
      then have "c < length (heap s)" using ih by (simp add: evolves_def)
      then have c1: "err (heap s1 ! c) \<noteq> None" using ih Return by simp
      have e2: "evolves s1 (clearTimer s1 c)" using c1 by (rule evolves_clearTimer)
      have "err (heap (clearTimer s1 c) ! c) \<noteq> None" using e2 c1 by (simp add: evolves_def)
      with 2(2) cc Return True evolves_trans[OF conjunct1[OF ih] e2] show ?thesis
        by (auto simp: cancel.simps)
    next
      case False
      with 2(2) cc Return ih show ?thesis by (auto simp: cancel.simps evolves_def)
    qed
  qed
next
  case (3 s r)
  then show ?case by (simp add: evolves_refl)
next
  case (4 s c cs r)
  obtain y s1 where cc: "cancel s c False (Some r) = (y, s1)"
    by (cases "cancel s c False (Some r)")
  note ih1 = 4(1)[OF cc]
  show ?case
  proof (cases y)
    case (Throw ex)
    with 4(3) cc ih1 show ?thesis by auto
  next
    case (Return u)
    from 4(3) cc Return have "cancelChildren s1 cs r = (x2, s2')" by simp
    from 4(2)[OF cc[symmetric] Return this] ih1 show ?thesis
      using evolves_trans by blast
  qed
qed

lemma clearTimer_timer:
  "c < length (heap s) \<Longrightarrow> timer (heap (clearTimer s c) ! c) = None"
  by (cases "timer (heap s ! c)") (simp_all add: clearTimer_def heap_upd_nth)

lemma clearTimer_idle: "timer (heap s ! c) = None \<Longrightarrow> clearTimer s c = s"
  by (simp add: clearTimer_def)

lemma clearTimer_cls: "cls (heap (clearTimer s c) ! m) = cls (heap s ! m)"
  by (cases "timer (heap s ! c)") (simp_all add: clearTimer_def heap_upd_nth)

lemma clearTimer_length: "length (heap (clearTimer s c)) = length (heap s)"
  by (cases "timer (heap s ! c)") (simp_all add: clearTimer_def)

section \<open>Derivations\<close>

lemma cancel_leaf:
  assumes "c < length (heap s)" "err (heap s ! c) = None" "done_field (heap s ! c) = Unset"
    "children (heap s ! c) = None" "timer (heap s ! c) = None"
  shows "cancel s c False (Some e) =
    (Return (), upd s c (\<lambda>n. n\<lparr>err := Some e, done_field := Shared\<rparr>))"
proof -
  let ?s0 = "upd s c (\<lambda>n. n\<lparr>err := Some e\<rparr>)"
  let ?s1 = "upd s c (\<lambda>n. n\<lparr>err := Some e, done_field := Shared\<rparr>)"
  have s1: "upd ?s0 c (\<lambda>n. n\<lparr>done_field := Shared\<rparr>) = ?s1"
    using assms(1) by (simp add: upd_def)
  have rd: "resolveDone ?s0 c = (Return (), ?s1)"
    using assms s1 by (simp add: resolveDone_def heap_upd_nth)
  have k: "kids ?s1 c = []" using assms by (simp add: kids_def heap_upd_nth)
  have inner: "CancelCtx_cancel s c False (Some e) = (Return (), ?s1)"
    using assms rd k by (simp add: CancelCtx_cancel.simps)
  have "timer (heap ?s1 ! c) = None" using assms by (simp add: heap_upd_nth)
  then have "clearTimer ?s1 c = ?s1" by (rule clearTimer_idle)
  with inner show ?thesis by (simp add: cancel.simps)
qed

lemma ctx_done_Ref_other:
  "heap (snd (ctx_done s (Ref p))) ! m =
     (if m = p \<and> p < length (heap s) \<and> done_field (heap s ! p) = Unset
      then (heap s ! p)\<lparr>done_field := Own False\<rparr> else heap s ! m)"
  by (cases "done_field (heap s ! p)") (auto simp: heap_upd_nth)

lemma ctx_done_fields [simp]:
  "length (heap (snd (ctx_done s k))) = length (heap s)"
  "pending (snd (ctx_done s k)) = pending s"
  "next_timer (snd (ctx_done s k)) = next_timer s"
  "races (snd (ctx_done s k)) = races s"
  by (cases k; cases "done_field (heap s ! (case k of Ref c \<Rightarrow> c | _ \<Rightarrow> 0))"; simp)+

lemma ctx_done_Ref_promise: "fst (ctx_done s (Ref p)) \<noteq> blockForever"
  by (cases "done_field (heap s ! p)") auto

lemma alloc_fields [simp]:
  "length (heap (alloc s n)) = Suc (length (heap s))"
  "pending (alloc s n) = pending s"
  "next_timer (alloc s n) = next_timer s"
  "races (alloc s n) = races s"
  by (simp_all add: alloc_def)

lemma heap_alloc_nth:
  "heap (alloc s n) ! m = (if m < length (heap s) then heap s ! m
     else if m = length (heap s) then n else (heap s @ [n]) ! m)"
  by (simp add: alloc_def nth_append)

lemma propagateCancel_settled_parent:
  assumes p: "p < length (heap s)" "err (heap s ! p) = Some e"
    and fresh: "err n = None" "done_field n = Unset" "children n = None" "timer n = None"
  shows "propagateCancel (alloc s n) (Ref p) (length (heap s)) =
     (Return (), settled_leaf (snd (ctx_done (alloc s n) (Ref p))) (length (heap s)) e)"
proof -
  let ?c = "length (heap s)"
  obtain pd s1 where d: "ctx_done (alloc s n) (Ref p) = (pd, s1)"
    by (cases "ctx_done (alloc s n) (Ref p)")
  have pd: "pd \<noteq> blockForever" using ctx_done_Ref_promise[of "alloc s n" p] d by simp
  have s1: "s1 = snd (ctx_done (alloc s n) (Ref p))" using d by simp
  have ep: "err (heap s1 ! p) = Some e"
    using p unfolding s1 by (simp add: ctx_done_Ref_other heap_alloc_nth del: ctx_done.simps)
  have nc: "heap s1 ! ?c = n"
    using p unfolding s1 by (simp add: ctx_done_Ref_other heap_alloc_nth del: ctx_done.simps)
  have len: "?c < length (heap s1)" unfolding s1 by (simp del: ctx_done.simps)
  have "cancel s1 ?c False (Some e) = (Return (), settled_leaf s1 ?c e)"
    unfolding settled_leaf_def using cancel_leaf[OF len] nc fresh by simp
  then have "propagateCancel (alloc s n) (Ref p) ?c = (Return (), settled_leaf s1 ?c e)"
    using d pd ep by (simp add: propagateCancel_def del: ctx_done.simps)
  then show ?thesis unfolding s1 .
qed

lemma propagateCancel_fresh:
  assumes v: "valid_ctx s par" and f: "fresh n"
  shows "propagateCancel (alloc s n) par (length (heap s)) = (Return (), linked s n par)"
proof (cases par)
  case backgroundCtx
  then show ?thesis by (simp add: propagateCancel_def linked_def Let_def)
next
  case (Ref p)
  with v have p: "p < length (heap s)" by simp
  show ?thesis
  proof (cases "err (heap s ! p)")
    case (Some e)
    from propagateCancel_settled_parent[OF p Some, of n] f Ref Some show ?thesis
      by (simp add: fresh_def linked_def Let_def del: ctx_done.simps)
  next
    case None
    obtain pd s1 where d: "ctx_done (alloc s n) (Ref p) = (pd, s1)"
      by (cases "ctx_done (alloc s n) (Ref p)")
    have pd: "pd \<noteq> blockForever" using ctx_done_Ref_promise[of "alloc s n" p] d by simp
    have s1: "s1 = snd (ctx_done (alloc s n) (Ref p))" using d by simp
    have ep: "err (heap s1 ! p) = None"
      using p None unfolding s1
      by (simp add: ctx_done_Ref_other heap_alloc_nth del: ctx_done.simps)
    have "propagateCancel (alloc s n) (Ref p) (length (heap s)) =
        (Return (), upd s1 p (\<lambda>n. n\<lparr>children := addChild (children n) (length (heap s))\<rparr>))"
      using d pd ep by (simp add: propagateCancel_def del: ctx_done.simps)
    then show ?thesis using Ref None unfolding s1 by (simp add: linked_def Let_def del: ctx_done.simps)
  qed
next
  case (Foreign d pr e)
  have "done_field (heap (alloc s n) ! length (heap s)) = Unset"
    using f by (simp add: heap_alloc_nth fresh_def)
  then show ?thesis using Foreign by (simp add: propagateCancel_def linked_def Let_def)
qed

lemma settled_leaf_fields [simp]:
  "length (heap (settled_leaf s c e)) = length (heap s)"
  "pending (settled_leaf s c e) = pending s"
  "next_timer (settled_leaf s c e) = next_timer s"
  "races (settled_leaf s c e) = races s"
  by (simp_all add: settled_leaf_def)

lemma linked_fields:
  "length (heap (linked s n par)) = Suc (length (heap s))"
  "pending (linked s n par) = pending s"
  "next_timer (linked s n par) = next_timer s"
  by (cases par; cases "err (heap s ! (case par of Ref p \<Rightarrow> p | _ \<Rightarrow> 0))";
      simp add: linked_def Let_def del: ctx_done.simps)+

lemma linked_new:
  assumes "valid_ctx s par"
  shows "cls (heap (linked s n par) ! length (heap s)) = cls n"
    "parent (heap (linked s n par) ! length (heap s)) = parent n"
    "deadline_field (heap (linked s n par) ! length (heap s)) = deadline_field n"
    "timer (heap (linked s n par) ! length (heap s)) = timer n"
    "err (heap (linked s n par) ! length (heap s)) =
       (case par of Ref p \<Rightarrow> (case err (heap s ! p) of None \<Rightarrow> err n | Some e \<Rightarrow> Some e)
        | _ \<Rightarrow> err n)"
  using assms
  by (cases par; cases "err (heap s ! (case par of Ref p \<Rightarrow> p | _ \<Rightarrow> 0))";
      simp add: linked_def Let_def settled_leaf_def heap_upd_nth ctx_done_Ref_other heap_alloc_nth
        del: ctx_done.simps)+

lemma linked_old:
  assumes "m < length (heap s)"
  shows "cls (heap (linked s n par) ! m) = cls (heap s ! m)"
    "parent (heap (linked s n par) ! m) = parent (heap s ! m)"
    "deadline_field (heap (linked s n par) ! m) = deadline_field (heap s ! m)"
    "timer (heap (linked s n par) ! m) = timer (heap s ! m)"
    "err (heap (linked s n par) ! m) = err (heap s ! m)"
  using assms
  by (cases par; cases "err (heap s ! (case par of Ref p \<Rightarrow> p | _ \<Rightarrow> 0))";
      simp add: linked_def Let_def settled_leaf_def heap_upd_nth ctx_done_Ref_other heap_alloc_nth
        del: ctx_done.simps)+


lemma fresh_new [simp]: "fresh (new_CancelCtx par)" "fresh (new_TimerCtx par d)"
  by (simp_all add: fresh_def new_CancelCtx_def new_TimerCtx_def)

lemma withCancel_eq:
  "valid_ctx s par \<Longrightarrow>
   withCancel s par = (Return (Ref (length (heap s))), linked s (new_CancelCtx par) par)"
  by (simp add: withCancel_def propagateCancel_fresh)

lemma cancel_settled_idle:
  assumes "c < length (heap s)" "err (heap s ! c) \<noteq> None" "timer (heap s ! c) = None"
  shows "cancel s c b (Some r) = (Return (), s)"
  using assms by (simp add: cancel.simps CancelCtx_cancel.simps clearTimer_idle)


section \<open>Evaluation of the examples\<close>

lemmas eval_defs = run_def init_def withCancel_def withDeadline_def withTimeout_def
  propagateCancel_def alloc_def new_CancelCtx_def new_TimerCtx_def setTimeout_def upd_def
  kids_def resolveDone_def removeChild_def clearTimer_def addChild_def
  CancelCtx_cancel.simps cancel.simps Let_def

lemma ex_pair_run: "run init [WithCancel backgroundCtx, WithCancel (Ref 0)] = ex_pair"
  by (simp add: eval_defs ex_pair_def)

lemma ex_timer_run: "run init [WithTimeout backgroundCtx (Finite 100) 0 0] = ex_timer"
  by (simp add: eval_defs ex_timer_def)

section \<open>The subtree of a node\<close>

lemma desc_cong:
  assumes "\<And>m. kids s' m = kids s m"
  shows "desc s' c = desc s c"
proof -
  have "m \<in> desc t c \<Longrightarrow> (\<And>m. kids t m = kids u m) \<Longrightarrow> m \<in> desc u c" for t u m
    by (induction rule: desc.induct) (auto intro: desc.intros)
  with assms show ?thesis by (metis subsetI subset_antisym)
qed

lemma desc_trans: "m \<in> desc s d \<Longrightarrow> d \<in> desc s c \<Longrightarrow> m \<in> desc s c"
  by (induction rule: desc.induct) (auto intro: desc.intros)

lemma desc_of_kid: "k \<in> set (kids s c) \<Longrightarrow> m \<in> desc s k \<Longrightarrow> m \<in> desc s c"
  using desc_trans[of m s k c] desc_kid[OF desc_self, of k s c] by blast

lemma desc_root_cases:
  "m \<in> desc s c \<Longrightarrow> m = c \<or> (\<exists>k\<in>set (kids s c). m \<in> desc s k)"
proof (induction rule: desc.induct)
  case desc_self
  then show ?case by simp
next
  case (desc_kid m k)
  then show ?case by (auto intro: desc.intros)
qed

lemma desc_ordered:
  assumes "m \<in> desc s c" and "\<And>d k. d \<in> desc s c \<Longrightarrow> k \<in> set (kids s d) \<Longrightarrow> d < k"
  shows "c \<le> m"
  using assms
proof (induction rule: desc.induct)
  case desc_self
  then show ?case by simp
next
  case (desc_kid m k)
  then have "c \<le> m" by blast
  moreover have "m < k" using desc_kid by blast
  ultimately show ?case by simp
qed

lemma removeChild_nth:
  "heap (removeChild s par c) ! m =
     (if par = Ref m \<and> m < length (heap s)
      then (heap s ! m)\<lparr>children := map_option (removeAll c) (children (heap s ! m))\<rparr>
      else heap s ! m)"
proof (cases par)
  case (Ref p)
  then show ?thesis
    by (cases "children (heap s ! p)") (auto simp: removeChild_def heap_upd_nth)
qed (simp_all add: removeChild_def)

lemma removeChild_fields [simp]:
  "length (heap (removeChild s par c)) = length (heap s)"
  "pending (removeChild s par c) = pending s"
  "next_timer (removeChild s par c) = next_timer s"
  "races (removeChild s par c) = races s"
  by (cases par; cases "children (heap s ! (case par of Ref p \<Rightarrow> p | _ \<Rightarrow> 0))";
      simp add: removeChild_def)+

lemma resolveDone_nth:
  "heap (snd (resolveDone s c)) ! m =
     (if m = c \<and> c < length (heap s) then
        (case done_field (heap s ! c) of
           Unset \<Rightarrow> (heap s ! c)\<lparr>done_field := Shared\<rparr>
         | Own b \<Rightarrow> (heap s ! c)\<lparr>done_field := Own True\<rparr>
         | Shared \<Rightarrow> heap s ! c)
      else heap s ! m)"
  by (cases "done_field (heap s ! c)") (auto simp: resolveDone_def heap_upd_nth)

lemma clearTimer_nth:
  "heap (clearTimer s c) ! m =
     (if m = c \<and> c < length (heap s) then (heap s ! c)\<lparr>timer := None\<rparr> else heap s ! m)"
  by (cases "timer (heap s ! c)") (auto simp: clearTimer_def heap_upd_nth)

lemma cancel_children:
  "CancelCtx_cancel s c b e = (x, s') \<Longrightarrow>
     children (heap s' ! m) =
       (if b \<and> x = Return () \<and> e \<noteq> None \<and> c < length (heap s) \<and> err (heap s ! c) = None \<and>
           parent (heap s ! c) = Ref m \<and> m < length (heap s)
        then map_option (removeAll c) (children (heap s ! m)) else children (heap s ! m))"
  "cancel s1 c1 b1 e1 = (x1, s1') \<Longrightarrow>
     children (heap s1' ! m) =
       (if b1 \<and> x1 = Return () \<and> e1 \<noteq> None \<and> c1 < length (heap s1) \<and> err (heap s1 ! c1) = None \<and>
           parent (heap s1 ! c1) = Ref m \<and> m < length (heap s1)
        then map_option (removeAll c1) (children (heap s1 ! m)) else children (heap s1 ! m))"
  "cancelChildren s2 cs r = (x2, s2') \<Longrightarrow> children (heap s2' ! m) = children (heap s2 ! m)"
proof (induction s c b e and s1 c1 b1 e1 and s2 cs r arbitrary: x s' and x1 s1' and x2 s2'
    rule: CancelCtx_cancel_cancel_cancelChildren.induct)
  case (1 s c removeFromParent e)
  show ?case
  proof (cases e)
    case None
    with 1(2) show ?thesis by (auto simp: CancelCtx_cancel.simps)
  next
    case (Some r)
    show ?thesis
    proof (cases "length (heap s) \<le> c \<or> err (heap s ! c) \<noteq> None")
      case True
      with 1(2) Some show ?thesis by (auto simp: CancelCtx_cancel.simps)
    next
      case False
      let ?s0 = "upd s c (\<lambda>n. n\<lparr>err := Some r\<rparr>)"
      obtain y s1 where rd: "resolveDone ?s0 c = (y, s1)" by (cases "resolveDone ?s0 c")
      have s1: "s1 = snd (resolveDone ?s0 c)" using rd by simp
      have ch1: "children (heap s1 ! m) = children (heap s ! m)"
        unfolding s1 by (simp add: resolveDone_nth heap_upd_nth split: done_slot.splits)
      have pa1: "parent (heap s1 ! c) = parent (heap s ! c)" "length (heap s1) = length (heap s)"
        unfolding s1 by (simp_all add: resolveDone_nth heap_upd_nth resolveDone_def split: done_slot.splits)
      show ?thesis
      proof (cases y)
        case (Throw ex)
        with 1(2) Some False rd ch1 show ?thesis by (auto simp: CancelCtx_cancel.simps)
      next
        case (Return u)
        obtain z s2 where cc: "cancelChildren s1 (kids s1 c) r = (z, s2)"
          by (cases "cancelChildren s1 (kids s1 c) r")
        have ch2: "children (heap s2 ! m) = children (heap s ! m)"
          using 1(1)[OF Some False rd[symmetric] Return cc] ch1 by simp
        have ev: "evolves s1 s2" using cancel_evolves(3)[OF cc] .
        have pa2: "parent (heap s2 ! c) = parent (heap s ! c)" "length (heap s2) = length (heap s)"
          using ev pa1 by (simp_all add: evolves_def)
        show ?thesis
        proof (cases z)
          case (Throw ex)
          with 1(2) Some False rd Return cc ch2 show ?thesis by (auto simp: CancelCtx_cancel.simps)
        next
          case (Return v)
          with 1(2) Some False rd \<open>y = Return u\<close> cc ch2 pa2 show ?thesis
            by (auto simp: CancelCtx_cancel.simps removeChild_nth)
        qed
      qed
    qed
  qed
next
  case (2 s c removeFromParent e)
  obtain y s1 where cc: "CancelCtx_cancel s c removeFromParent e = (y, s1)"
    by (cases "CancelCtx_cancel s c removeFromParent e")
  note ih = 2(1)[OF cc]
  show ?case
  proof (cases y)
    case (Throw ex)
    with 2(2) cc ih show ?thesis by (auto simp: cancel.simps)
  next
    case (Return u)
    with 2(2) cc ih show ?thesis by (auto simp: cancel.simps clearTimer_nth)
  qed
next
  case (3 s r)
  then show ?case by simp
next
  case (4 s c cs r)
  obtain y s1 where cc: "cancel s c False (Some r) = (y, s1)"
    by (cases "cancel s c False (Some r)")
  note ih1 = 4(1)[OF cc]
  show ?case
  proof (cases y)
    case (Throw ex)
    with 4(3) cc ih1 show ?thesis by auto
  next
    case (Return u)
    from 4(3) cc Return have "cancelChildren s1 cs r = (x2, s2')" by simp
    from 4(2)[OF cc[symmetric] Return this] ih1 show ?thesis by simp
  qed
qed

lemma cancel_kids_same:
  "cancel s c False e = (x, s') \<Longrightarrow> kids s' m = kids s m"
  "cancelChildren s cs r = (x, s') \<Longrightarrow> kids s' m = kids s m"
  using cancel_children(2)[of s c False e x s' m] cancel_children(3)[of s cs r x s' m]
  by (simp_all add: kids_def)

lemma cancel_desc_same:
  "cancel s c False e = (x, s') \<Longrightarrow> desc s' k = desc s k"
  "cancelChildren s cs r = (x, s') \<Longrightarrow> desc s' k = desc s k"
  by (rule desc_cong, erule cancel_kids_same)+

lemma cancel_frame:
  "CancelCtx_cancel s c b e = (x, s') \<Longrightarrow> m \<notin> desc s c \<Longrightarrow>
     heap s' ! m =
       (if b \<and> x = Return () \<and> e \<noteq> None \<and> c < length (heap s) \<and> err (heap s ! c) = None \<and>
           parent (heap s ! c) = Ref m \<and> m < length (heap s)
        then (heap s ! m)\<lparr>children := map_option (removeAll c) (children (heap s ! m))\<rparr>
        else heap s ! m)"
  "cancel s1 c1 b1 e1 = (x1, s1') \<Longrightarrow> m \<notin> desc s1 c1 \<Longrightarrow>
     heap s1' ! m =
       (if b1 \<and> x1 = Return () \<and> e1 \<noteq> None \<and> c1 < length (heap s1) \<and> err (heap s1 ! c1) = None \<and>
           parent (heap s1 ! c1) = Ref m \<and> m < length (heap s1)
        then (heap s1 ! m)\<lparr>children := map_option (removeAll c1) (children (heap s1 ! m))\<rparr>
        else heap s1 ! m)"
  "cancelChildren s2 cs r = (x2, s2') \<Longrightarrow> (\<forall>k\<in>set cs. m \<notin> desc s2 k) \<Longrightarrow>
     heap s2' ! m = heap s2 ! m"
proof (induction s c b e and s1 c1 b1 e1 and s2 cs r arbitrary: x s' and x1 s1' and x2 s2'
    rule: CancelCtx_cancel_cancel_cancelChildren.induct)
  case (1 s c removeFromParent e)
  have mc: "m \<noteq> c" using 1(3) by (auto intro: desc.intros)
  show ?case
  proof (cases e)
    case None
    with 1(2) show ?thesis by (auto simp: CancelCtx_cancel.simps)
  next
    case (Some r)
    show ?thesis
    proof (cases "length (heap s) \<le> c \<or> err (heap s ! c) \<noteq> None")
      case True
      with 1(2) Some show ?thesis by (auto simp: CancelCtx_cancel.simps)
    next
      case False
      let ?s0 = "upd s c (\<lambda>n. n\<lparr>err := Some r\<rparr>)"
      obtain y s1 where rd: "resolveDone ?s0 c = (y, s1)" by (cases "resolveDone ?s0 c")
      have s1: "s1 = snd (resolveDone ?s0 c)" using rd by simp
      have n1: "heap s1 ! m = heap s ! m"
        unfolding s1 using mc by (simp add: resolveDone_nth heap_upd_nth)
      have k1: "kids s1 j = kids s j" for j
        unfolding s1 kids_def by (simp add: resolveDone_nth heap_upd_nth split: done_slot.splits)
      have d1: "desc s1 j = desc s j" for j by (rule desc_cong) (rule k1)
      have pa1: "parent (heap s1 ! c) = parent (heap s ! c)" "length (heap s1) = length (heap s)"
        unfolding s1 by (simp_all add: resolveDone_nth heap_upd_nth resolveDone_def split: done_slot.splits)
      show ?thesis
      proof (cases y)
        case (Throw ex)
        with 1(2) Some False rd n1 show ?thesis by (auto simp: CancelCtx_cancel.simps)
      next
        case (Return u)
        obtain z s2 where cc: "cancelChildren s1 (kids s1 c) r = (z, s2)"
          by (cases "cancelChildren s1 (kids s1 c) r")
        have out: "\<forall>k\<in>set (kids s1 c). m \<notin> desc s1 k"
          using 1(3) desc_of_kid[of _ s c m] by (auto simp: k1 d1)
        have n2: "heap s2 ! m = heap s ! m"
          using 1(1)[OF Some False rd[symmetric] Return cc out] n1 by simp
        have ev: "evolves s1 s2" using cancel_evolves(3)[OF cc] .
        have pa2: "parent (heap s2 ! c) = parent (heap s ! c)" "length (heap s2) = length (heap s)"
          using ev pa1 by (simp_all add: evolves_def)
        show ?thesis
        proof (cases z)
          case (Throw ex)
          with 1(2) Some False rd Return cc n2 show ?thesis by (auto simp: CancelCtx_cancel.simps)
        next
          case (Return v)
          with 1(2) Some False rd \<open>y = Return u\<close> cc n2 pa2 show ?thesis
            by (auto simp: CancelCtx_cancel.simps removeChild_nth)
        qed
      qed
    qed
  qed
next
  case (2 s c removeFromParent e)
  have mc: "m \<noteq> c" using 2(3) by (auto intro: desc.intros)
  obtain y s1 where cc: "CancelCtx_cancel s c removeFromParent e = (y, s1)"
    by (cases "CancelCtx_cancel s c removeFromParent e")
  note ih = 2(1)[OF cc 2(3)]
  show ?case
  proof (cases y)
    case (Throw ex)
    with 2(2) cc ih show ?thesis by (auto simp: cancel.simps)
  next
    case (Return u)
    with 2(2) cc ih mc show ?thesis by (auto simp: cancel.simps clearTimer_nth)
  qed
next
  case (3 s r)
  then show ?case by simp
next
  case (4 s c cs r)
  obtain y s1 where cc: "cancel s c False (Some r) = (y, s1)"
    by (cases "cancel s c False (Some r)")
  have ih1: "heap s1 ! m = heap s ! m" using 4(1)[OF cc] 4(4) by simp
  show ?case
  proof (cases y)
    case (Throw ex)
    with 4(3) cc ih1 show ?thesis by auto
  next
    case (Return u)
    from 4(3) cc Return have r: "cancelChildren s1 cs r = (x2, s2')" by simp
    have "\<forall>k\<in>set cs. m \<notin> desc s1 k" using 4(4) cancel_desc_same(1)[OF cc] by simp
    from 4(2)[OF cc[symmetric] Return r this] ih1 show ?thesis by simp
  qed
qed

section \<open>The cascade reaches the whole subtree\<close>

lemma sub_okD:
  "sub_ok s c r \<Longrightarrow> d \<in> desc s c \<Longrightarrow>
     d < length (heap s) \<and> (\<forall>k\<in>set (kids s d). d < k) \<and>
     (err (heap s ! d) = None \<and> done_field (heap s ! d) \<noteq> Shared \<or>
      (\<forall>d'\<in>desc s d. err (heap s ! d') = Some r))"
  by (simp add: sub_ok_def)

lemma sub_ok_kid: "sub_ok s c r \<Longrightarrow> k \<in> desc s c \<Longrightarrow> sub_ok s k r"
  unfolding sub_ok_def using desc_trans by blast

lemma sub_ok_above:
  assumes "sub_ok s c r" "k \<in> set (kids s c)" "d \<in> desc s k"
  shows "c < d"
proof -
  have c: "c \<in> desc s c" by (rule desc_self)
  have "c < k" using assms(1,2) c unfolding sub_ok_def by blast
  moreover have "k \<le> d"
  proof (rule desc_ordered[OF assms(3)])
    fix j i assume "j \<in> desc s k" "i \<in> set (kids s j)"
    then have "j \<in> desc s c" using desc_of_kid[OF assms(2)] by blast
    with \<open>i \<in> set (kids s j)\<close> assms(1) show "j < i" unfolding sub_ok_def by blast
  qed
  ultimately show ?thesis by simp
qed

text \<open>A state change that keeps child sets and only touches nodes outside a subtree,
  or settles nodes with their whole subtrees, keeps \<open>sub_ok\<close>.\<close>

lemma sub_ok_step:
  assumes ok: "sub_ok s k r"
    and kids: "\<And>m. kids s1 m = kids s m"
    and len: "length (heap s1) = length (heap s)"
    and keep: "\<And>d. d \<in> desc s k \<Longrightarrow> heap s1 ! d = heap s ! d \<or>
       (\<forall>d'\<in>desc s d. err (heap s1 ! d') = Some r)"
  shows "sub_ok s1 k r"
proof -
  have de: "desc s1 j = desc s j" for j by (rule desc_cong) (rule kids)
  show ?thesis
    unfolding sub_ok_def de kids len
  proof (intro ballI conjI)
    fix d assume d: "d \<in> desc s k"
    show "d < length (heap s)" using ok d unfolding sub_ok_def by blast
    show "\<And>j. j \<in> set (kids s d) \<Longrightarrow> d < j" using ok d unfolding sub_ok_def by blast
    show "err (heap s1 ! d) = None \<and> done_field (heap s1 ! d) \<noteq> Shared \<or>
         (\<forall>d'\<in>desc s d. err (heap s1 ! d') = Some r)"
    proof (cases "\<forall>d'\<in>desc s d. err (heap s1 ! d') = Some r")
      case True
      then show ?thesis by simp
    next
      case False
      with keep[OF d] have same: "heap s1 ! d = heap s ! d" by blast
      have "err (heap s ! d) = None \<and> done_field (heap s ! d) \<noteq> Shared"
      proof (rule ccontr)
        assume "\<not> ?thesis"
        then have all: "\<forall>d'\<in>desc s d. err (heap s ! d') = Some r"
          using ok d unfolding sub_ok_def by blast
        have "err (heap s1 ! d') = Some r" if "d' \<in> desc s d" for d'
        proof -
          have "d' \<in> desc s k" using desc_trans[OF that d] .
          from keep[OF this] show ?thesis
            using all that desc_self[of d' s] by auto
        qed
        with False show False by blast
      qed
      with same show ?thesis by simp
    qed
  qed
qed

lemma evolves_err_kept: "evolves s s' \<Longrightarrow> err (heap s ! m) = Some r \<Longrightarrow> err (heap s' ! m) = Some r"
  by (simp add: evolves_def)

lemma cancel_cascade:
  "CancelCtx_cancel s c b e = (x, s') \<Longrightarrow> e = Some r \<Longrightarrow> sub_ok s c r \<Longrightarrow>
     x = Return () \<and> (\<forall>d\<in>desc s c. err (heap s' ! d) = Some r)"
  "cancel s1 c1 b1 e1 = (x1, s1') \<Longrightarrow> e1 = Some r1 \<Longrightarrow> sub_ok s1 c1 r1 \<Longrightarrow>
     x1 = Return () \<and> (\<forall>d\<in>desc s1 c1. err (heap s1' ! d) = Some r1)"
  "cancelChildren s2 cs r2 = (x2, s2') \<Longrightarrow> (\<forall>k\<in>set cs. sub_ok s2 k r2) \<Longrightarrow>
     x2 = Return () \<and> (\<forall>k\<in>set cs. \<forall>d\<in>desc s2 k. err (heap s2' ! d) = Some r2)"
proof (induction s c b e and s1 c1 b1 e1 and s2 cs r2 arbitrary: x s' r and x1 s1' r1 and x2 s2'
    rule: CancelCtx_cancel_cancel_cancelChildren.induct)
  case (1 s c removeFromParent e)
  note ok = \<open>sub_ok s c r\<close> and e = \<open>e = Some r\<close>
  have cd: "c \<in> desc s c" by (rule desc_self)
  have cl: "c < length (heap s)" using sub_okD[OF ok cd] by simp
  show ?case
  proof (cases "err (heap s ! c) \<noteq> None")
    case True
    then have "\<forall>d'\<in>desc s c. err (heap s ! d') = Some r"
      using sub_okD[OF ok cd] by auto
    moreover have "x = Return () \<and> s' = s"
      using 1(2) e True by (simp add: CancelCtx_cancel.simps)
    ultimately show ?thesis by simp
  next
    case False
    then have lv: "err (heap s ! c) = None" by simp
    have dn: "done_field (heap s ! c) \<noteq> Shared" using sub_okD[OF ok cd] lv cd by auto
    let ?s0 = "upd s c (\<lambda>n. n\<lparr>err := Some r\<rparr>)"
    obtain y s1 where rd: "resolveDone ?s0 c = (y, s1)" by (cases "resolveDone ?s0 c")
    have y: "y = Return ()"
      using rd dn cl by (auto simp: resolveDone_def heap_upd_nth split: done_slot.splits)
    have s1: "s1 = snd (resolveDone ?s0 c)" using rd by simp
    have n1: "heap s1 ! m = heap s ! m" if "m \<noteq> c" for m
      unfolding s1 using that by (simp add: resolveDone_nth heap_upd_nth)
    have e1: "err (heap s1 ! c) = Some r"
      unfolding s1 using cl by (simp add: resolveDone_nth heap_upd_nth split: done_slot.splits)
    have k1: "kids s1 j = kids s j" for j
      unfolding s1 kids_def by (simp add: resolveDone_nth heap_upd_nth split: done_slot.splits)
    have d1: "desc s1 j = desc s j" for j by (rule desc_cong) (rule k1)
    have l1: "length (heap s1) = length (heap s)"
      unfolding s1 by (simp add: resolveDone_def split: done_slot.splits)
    obtain z s2 where cc: "cancelChildren s1 (kids s1 c) r = (z, s2)"
      by (cases "cancelChildren s1 (kids s1 c) r")
    have pre: "\<forall>k\<in>set (kids s1 c). sub_ok s1 k r"
    proof
      fix k assume k: "k \<in> set (kids s1 c)"
      then have ks: "k \<in> set (kids s c)" by (simp add: k1)
      have kd: "k \<in> desc s c" using desc_kid[OF cd ks] .
      show "sub_ok s1 k r"
      proof (rule sub_ok_step[OF sub_ok_kid[OF ok kd] k1 l1])
        fix d assume "d \<in> desc s k"
        then have "c < d" using sub_ok_above[OF ok ks] by blast
        then show "heap s1 ! d = heap s ! d \<or> (\<forall>d'\<in>desc s d. err (heap s1 ! d') = Some r)"
          using n1 by simp
      qed
    qed
    have ih: "z = Return () \<and> (\<forall>k\<in>set (kids s1 c). \<forall>d\<in>desc s1 k. err (heap s2 ! d) = Some r)"
      using 1(1)[OF e _ rd[symmetric] y cc pre] lv cl by simp
    have ev: "evolves s1 s2" using cancel_evolves(3)[OF cc] .
    have all2: "err (heap s2 ! d) = Some r" if "d \<in> desc s c" for d
      using desc_root_cases[OF that] ih evolves_err_kept[OF ev e1] by (auto simp: k1 d1)
    have s': "s' = (if removeFromParent then removeChild s2 (parent (heap s2 ! c)) c else s2)"
      and x: "x = Return ()"
      using 1(2) e lv cl rd y cc ih by (auto simp: CancelCtx_cancel.simps)
    have "err (heap s' ! d) = err (heap s2 ! d)" for d
      unfolding s' by (simp add: removeChild_nth)
    with all2 x show ?thesis by simp
  qed
next
  case (2 s c removeFromParent e)
  obtain y s1 where cc: "CancelCtx_cancel s c removeFromParent e = (y, s1)"
    by (cases "CancelCtx_cancel s c removeFromParent e")
  note ih = 2(1)[OF cc 2(3) 2(4)]
  have "err (heap s1' ! d) = err (heap s1 ! d)" for d
    using 2(2) cc ih by (auto simp: cancel.simps clearTimer_nth)
  with 2(2) cc ih show ?case by (auto simp: cancel.simps)
next
  case (3 s r)
  then show ?case by simp
next
  case (4 s c cs r)
  obtain y s1 where cc: "cancel s c False (Some r) = (y, s1)"
    by (cases "cancel s c False (Some r)")
  have okc: "sub_ok s c r" using 4(4) by simp
  have ih1: "y = Return () \<and> (\<forall>d\<in>desc s c. err (heap s1 ! d) = Some r)"
    using 4(1)[OF cc refl okc] .
  then have y: "y = Return ()" by simp
  from 4(3) cc y have r: "cancelChildren s1 cs r = (x2, s2')" by simp
  have ev1: "evolves s s1" using cancel_evolves(2)[OF cc] by simp
  have l1: "length (heap s1) = length (heap s)" using ev1 by (simp add: evolves_def)
  have pre: "\<forall>k\<in>set cs. sub_ok s1 k r"
  proof
    fix k assume k: "k \<in> set cs"
    then have ok: "sub_ok s k r" using 4(4) by simp
    show "sub_ok s1 k r"
    proof (rule sub_ok_step[OF ok cancel_kids_same(1)[OF cc] l1])
      fix d assume d: "d \<in> desc s k"
      show "heap s1 ! d = heap s ! d \<or> (\<forall>d'\<in>desc s d. err (heap s1 ! d') = Some r)"
      proof (cases "d \<in> desc s c")
        case True
        then have "\<forall>d'\<in>desc s d. err (heap s1 ! d') = Some r"
          using ih1 desc_trans[of _ s d c] by blast
        then show ?thesis by simp
      next
        case False
        from cancel_frame(2)[OF cc False] show ?thesis by simp
      qed
    qed
  qed
  have ih2: "x2 = Return () \<and> (\<forall>k\<in>set cs. \<forall>d\<in>desc s1 k. err (heap s2' ! d) = Some r)"
    using 4(2)[OF cc[symmetric] y r pre] .
  have ev2: "evolves s1 s2'" using cancel_evolves(3)[OF r] .
  have "err (heap s2' ! d) = Some r" if "d \<in> desc s c" for d
    using ih1 that evolves_err_kept[OF ev2] by blast
  with ih2 show ?case by (auto simp: cancel_desc_same(1)[OF cc])
qed

lemma evolves_timer_None:
  "evolves s s' \<Longrightarrow> timer (heap s ! m) = None \<Longrightarrow> timer (heap s' ! m) = None"
  unfolding evolves_def by metis

lemma evolves_cls: "evolves s s' \<Longrightarrow> cls (heap s' ! m) = cls (heap s ! m)"
  by (simp add: evolves_def)

lemma evolves_length: "evolves s s' \<Longrightarrow> length (heap s') = length (heap s)"
  by (simp add: evolves_def)

lemma cancel_clears_timers:
  "CancelCtx_cancel s c b e = (x, s') \<Longrightarrow> x = Return () \<Longrightarrow> m \<noteq> c \<Longrightarrow>
     err (heap s ! m) = None \<Longrightarrow> err (heap s' ! m) \<noteq> None \<Longrightarrow>
     cls (heap s ! m) = TimerCtx \<Longrightarrow> m < length (heap s) \<Longrightarrow> timer (heap s' ! m) = None"
  "cancel s1 c1 b1 e1 = (x1, s1') \<Longrightarrow> x1 = Return () \<Longrightarrow>
     err (heap s1 ! m) = None \<Longrightarrow> err (heap s1' ! m) \<noteq> None \<Longrightarrow>
     cls (heap s1 ! m) = TimerCtx \<Longrightarrow> m < length (heap s1) \<Longrightarrow> timer (heap s1' ! m) = None"
  "cancelChildren s2 cs r = (x2, s2') \<Longrightarrow> x2 = Return () \<Longrightarrow>
     err (heap s2 ! m) = None \<Longrightarrow> err (heap s2' ! m) \<noteq> None \<Longrightarrow>
     cls (heap s2 ! m) = TimerCtx \<Longrightarrow> m < length (heap s2) \<Longrightarrow> timer (heap s2' ! m) = None"
proof (induction s c b e and s1 c1 b1 e1 and s2 cs r arbitrary: x s' and x1 s1' and x2 s2'
    rule: CancelCtx_cancel_cancel_cancelChildren.induct)
  case (1 s c removeFromParent e)
  note call = 1(2) and ret = 1(3) and mc = 1(4) and live = 1(5) and dead = 1(6)
    and tm = 1(7) and ml = 1(8)
  show ?case
  proof (cases e)
    case None
    with call ret show ?thesis by (simp add: CancelCtx_cancel.simps)
  next
    case (Some r)
    show ?thesis
    proof (cases "length (heap s) \<le> c \<or> err (heap s ! c) \<noteq> None")
      case True
      with call Some have "s' = s" by (simp add: CancelCtx_cancel.simps)
      with live dead show ?thesis by simp
    next
      case False
      let ?s0 = "upd s c (\<lambda>n. n\<lparr>err := Some r\<rparr>)"
      obtain y s1 where rd: "resolveDone ?s0 c = (y, s1)" by (cases "resolveDone ?s0 c")
      have s1: "s1 = snd (resolveDone ?s0 c)" using rd by simp
      have n1: "heap s1 ! m = heap s ! m"
        unfolding s1 using mc by (simp add: resolveDone_nth heap_upd_nth)
      have l1: "length (heap s1) = length (heap s)"
        unfolding s1 by (simp add: resolveDone_def split: done_slot.splits)
      obtain z s2 where cc: "cancelChildren s1 (kids s1 c) r = (z, s2)"
        by (cases "cancelChildren s1 (kids s1 c) r")
      have y: "y = Return ()" using call Some False rd ret
        by (cases y) (simp_all add: CancelCtx_cancel.simps)
      have z: "z = Return ()" using call Some False rd ret y cc
        by (cases z) (simp_all add: CancelCtx_cancel.simps)
      have s': "s' = (if removeFromParent then removeChild s2 (parent (heap s2 ! c)) c else s2)"
        using call Some False rd y cc z by (simp add: CancelCtx_cancel.simps)
      have d2: "err (heap s2 ! m) \<noteq> None" using dead unfolding s' by (simp add: removeChild_nth split: if_splits)
      have "timer (heap s2 ! m) = None"
        using 1(1)[OF Some False rd[symmetric] y cc z _ d2] n1 live tm ml l1 by simp
      then show ?thesis unfolding s' by (simp add: removeChild_nth)
    qed
  qed
next
  case (2 s c removeFromParent e)
  note call = 2(2) and ret = 2(3) and live = 2(4) and dead = 2(5) and tm = 2(6) and ml = 2(7)
  obtain y s1 where cc: "CancelCtx_cancel s c removeFromParent e = (y, s1)"
    by (cases "CancelCtx_cancel s c removeFromParent e")
  have y: "y = Return ()" using call cc ret by (cases y) (simp_all add: cancel.simps)
  have s': "s1' = (if c < length (heap s1) \<and> cls (heap s1 ! c) = TimerCtx then clearTimer s1 c else s1)"
    using call cc y by (simp add: cancel.simps)
  have ev: "evolves s s1" using cancel_evolves(1)[OF cc] by simp
  show ?case
  proof (cases "m = c")
    case True
    have "cls (heap s1 ! c) = TimerCtx" "c < length (heap s1)"
      using ev tm ml True by (simp_all add: evolves_def)
    then have "s1' = clearTimer s1 c" using s' by simp
    then show ?thesis using True \<open>c < length (heap s1)\<close> by (simp add: clearTimer_timer)
  next
    case False
    have d1: "err (heap s1 ! m) \<noteq> None"
      using dead False unfolding s' by (simp add: clearTimer_nth split: if_splits)
    have "timer (heap s1 ! m) = None" using 2(1)[OF cc y False live d1 tm ml] .
    then show ?thesis unfolding s' using False by (simp add: clearTimer_nth)
  qed
next
  case (3 s r)
  then show ?case by simp
next
  case (4 s c cs r)
  note call = 4(3) and ret = 4(4) and live = 4(5) and dead = 4(6) and tm = 4(7) and ml = 4(8)
  obtain y s1 where cc: "cancel s c False (Some r) = (y, s1)"
    by (cases "cancel s c False (Some r)")
  have y: "y = Return ()" using call cc ret by (cases y) simp_all
  from call cc y have r: "cancelChildren s1 cs r = (x2, s2')" by simp
  have ev1: "evolves s s1" using cancel_evolves(2)[OF cc] by simp
  have ev2: "evolves s1 s2'" using cancel_evolves(3)[OF r] .
  show ?case
  proof (cases "err (heap s1 ! m) = None")
    case False
    have "timer (heap s1 ! m) = None" using 4(1)[OF cc y live False tm ml] .
    then show ?thesis using evolves_timer_None[OF ev2] by simp
  next
    case True
    have "cls (heap s1 ! m) = TimerCtx" "m < length (heap s1)"
      using ev1 tm ml by (simp_all add: evolves_def)
    from 4(2)[OF cc[symmetric] y r ret True dead this] show ?thesis .
  qed
qed

section \<open>Consequences of the invariant\<close>

lemma tree_okD:
  "tree_ok s \<Longrightarrow> m < length (heap s) \<Longrightarrow> k \<in> set (kids s m) \<Longrightarrow>
     m < k \<and> k < length (heap s) \<and> parent (heap s ! k) = Ref m"
  unfolding tree_ok_def by blast

lemma live_okD:
  "live_ok s \<Longrightarrow> m < length (heap s) \<Longrightarrow> err (heap s ! m) = None \<Longrightarrow>
     (\<forall>k\<in>set (kids s m). err (heap s ! k) = None) \<and> done_field (heap s ! m) \<noteq> Shared"
  unfolding live_ok_def live_def by blast

lemma desc_in_wf:
  assumes t: "tree_ok s" and c: "c < length (heap s)" and d: "d \<in> desc s c"
  shows "d < length (heap s) \<and> c \<le> d"
  using d
proof (induction rule: desc.induct)
  case desc_self
  then show ?case using c by simp
next
  case (desc_kid m k)
  then show ?case using tree_okD[OF t, of m k] by auto
qed

lemma desc_live_wf:
  assumes t: "tree_ok s" and l: "live_ok s" and c: "c < length (heap s)"
    and lc: "err (heap s ! c) = None" and d: "d \<in> desc s c"
  shows "err (heap s ! d) = None"
  using d
proof (induction rule: desc.induct)
  case desc_self
  then show ?case using lc by simp
next
  case (desc_kid m k)
  have "m < length (heap s)" using desc_in_wf[OF t c desc_kid(1)] by simp
  from live_okD[OF l this desc_kid(3)] desc_kid(2) show ?case by blast
qed

lemma wf_sub_ok:
  assumes t: "tree_ok s" and l: "live_ok s" and c: "c < length (heap s)"
    and lc: "err (heap s ! c) = None"
  shows "sub_ok s c r"
  unfolding sub_ok_def
proof (intro ballI conjI)
  fix d assume d: "d \<in> desc s c"
  show dl: "d < length (heap s)" using desc_in_wf[OF t c d] by simp
  show "\<And>k. k \<in> set (kids s d) \<Longrightarrow> d < k" using tree_okD[OF t dl] by blast
  have "err (heap s ! d) = None" using desc_live_wf[OF t l c lc d] .
  with live_okD[OF l dl this]
  show "err (heap s ! d) = None \<and> done_field (heap s ! d) \<noteq> Shared \<or>
        (\<forall>d'\<in>desc s d. err (heap s ! d') = Some r)" by simp
qed

lemma wf_parent_outside:
  assumes t: "tree_ok s" and c: "c < length (heap s)" and p: "parent (heap s ! c) = Ref p"
  shows "p \<notin> desc s c"
proof
  assume "p \<in> desc s c"
  then have "c \<le> p" using desc_in_wf[OF t c] by blast
  moreover have "p < c" using t c p unfolding tree_ok_def by blast
  ultimately show False by simp
qed

lemma wf_sibling_outside:
  assumes t: "tree_ok s" and c: "c < length (heap s)" and m: "m < length (heap s)"
    and ne: "m \<noteq> c" and sib: "parent (heap s ! m) = parent (heap s ! c)"
  shows "m \<notin> desc s c"
proof
  assume "m \<in> desc s c"
  then show False
  proof (cases rule: desc.cases)
    case desc_self
    with ne show False by simp
  next
    case (desc_kid j)
    have j: "j < length (heap s) \<and> c \<le> j" using desc_in_wf[OF t c desc_kid(1)] .
    then have pm: "parent (heap s ! m) = Ref j" using tree_okD[OF t _ desc_kid(2)] by simp
    then have "parent (heap s ! c) = Ref j" using sib by simp
    then have "j < c" using t c unfolding tree_ok_def by blast
    with j show False by simp
  qed
qed

lemma timers_okD1:
  "timers_ok s \<Longrightarrow> m < length (heap s) \<Longrightarrow>
     err (heap s ! m) \<noteq> None \<or> cls (heap s ! m) = CancelCtx \<Longrightarrow> timer (heap s ! m) = None"
  unfolding timers_ok_def live_def by blast

lemma timers_okD2:
  "timers_ok s \<Longrightarrow> m < length (heap s) \<Longrightarrow> timer (heap s ! m) = Some h \<Longrightarrow>
     h < next_timer s \<and> (\<forall>k<length (heap s). timer (heap s ! k) = Some h \<longrightarrow> k = m)"
  unfolding timers_ok_def by blast

lemma timers_okD3:
  "timers_ok s \<Longrightarrow> (h, c) \<in> set (pending s) \<Longrightarrow>
     c < length (heap s) \<and> timer (heap s ! c) = Some h"
  unfolding timers_ok_def by blast

lemma timers_okI:
  assumes "\<And>m. m < length (heap s) \<Longrightarrow> err (heap s ! m) \<noteq> None \<or> cls (heap s ! m) = CancelCtx \<Longrightarrow>
      timer (heap s ! m) = None"
    and "\<And>m h. m < length (heap s) \<Longrightarrow> timer (heap s ! m) = Some h \<Longrightarrow> h < next_timer s"
    and "\<And>m k h. m < length (heap s) \<Longrightarrow> k < length (heap s) \<Longrightarrow>
      timer (heap s ! m) = Some h \<Longrightarrow> timer (heap s ! k) = Some h \<Longrightarrow> k = m"
    and "\<And>h c. (h, c) \<in> set (pending s) \<Longrightarrow> c < length (heap s) \<and> timer (heap s ! c) = Some h"
  shows "timers_ok s"
  unfolding timers_ok_def live_def using assms by blast

lemma tree_okI:
  assumes "\<And>m k. m < length (heap s) \<Longrightarrow> k \<in> set (kids s m) \<Longrightarrow>
      m < k \<and> k < length (heap s) \<and> parent (heap s ! k) = Ref m"
    and "\<And>m p. m < length (heap s) \<Longrightarrow> parent (heap s ! m) = Ref p \<Longrightarrow> p < m"
  shows "tree_ok s"
  unfolding tree_ok_def using assms by blast

lemma tree_okD2:
  "tree_ok s \<Longrightarrow> m < length (heap s) \<Longrightarrow> parent (heap s ! m) = Ref p \<Longrightarrow> p < m"
  unfolding tree_ok_def by blast

lemma live_okD2:
  "live_ok s \<Longrightarrow> m < length (heap s) \<Longrightarrow> err (heap s ! m) \<noteq> None \<Longrightarrow>
     k \<in> set (kids s m) \<Longrightarrow> err (heap s ! k) \<noteq> None"
  unfolding live_ok_def live_def by blast

lemma live_okI:
  assumes "\<And>m k. m < length (heap s) \<Longrightarrow> err (heap s ! m) = None \<Longrightarrow> k \<in> set (kids s m) \<Longrightarrow>
      err (heap s ! k) = None"
    and "\<And>m. m < length (heap s) \<Longrightarrow> err (heap s ! m) = None \<Longrightarrow> done_field (heap s ! m) \<noteq> Shared"
    and "\<And>m k. m < length (heap s) \<Longrightarrow> err (heap s ! m) \<noteq> None \<Longrightarrow> k \<in> set (kids s m) \<Longrightarrow>
      err (heap s ! k) \<noteq> None"
  shows "live_ok s"
  unfolding live_ok_def live_def using assms by blast

lemma races_okD:
  "races_ok s \<Longrightarrow> (par, c) \<in> set (races s) \<Longrightarrow>
     c < length (heap s) \<and> parent (heap s ! c) = par \<and> parentCancelCtx par = None"
  unfolding races_ok_def by blast

lemma races_okI:
  assumes "\<And>par c. (par, c) \<in> set (races s) \<Longrightarrow>
     c < length (heap s) \<and> parent (heap s ! c) = par \<and> parentCancelCtx par = None"
  shows "races_ok s"
  unfolding races_ok_def using assms by blast

lemma evolves_parent: "evolves s s' \<Longrightarrow> parent (heap s' ! m) = parent (heap s ! m)"
  by (simp add: evolves_def)

lemma evolves_kids: "evolves s s' \<Longrightarrow> k \<in> set (kids s' m) \<Longrightarrow> k \<in> set (kids s m)"
  unfolding evolves_def by blast

lemma evolves_live_back: "evolves s s' \<Longrightarrow> err (heap s' ! m) = None \<Longrightarrow> err (heap s ! m) = None"
  unfolding evolves_def by metis

lemma evolves_live_same:
  "evolves s s' \<Longrightarrow> err (heap s' ! m) = None \<Longrightarrow>
     done_field (heap s' ! m) = done_field (heap s ! m) \<and> timer (heap s' ! m) = timer (heap s ! m)"
  unfolding evolves_def by blast

lemma evolves_timer_back:
  "evolves s s' \<Longrightarrow> timer (heap s' ! m) = Some h \<Longrightarrow> timer (heap s ! m) = Some h"
  unfolding evolves_def by (metis option.distinct(1))

lemma evolves_pending:
  "evolves s s' \<Longrightarrow> (h, m) \<in> set (pending s') \<Longrightarrow>
     (h, m) \<in> set (pending s) \<and> (timer (heap s ! m) = Some h \<longrightarrow> timer (heap s' ! m) = Some h)"
  unfolding evolves_def by blast

lemma evolves_globals:
  "evolves s s' \<Longrightarrow> next_timer s' = next_timer s \<and> races s' = races s"
  by (simp add: evolves_def)

text \<open>The parts of the invariant that any cancel activity keeps.\<close>

lemma evolves_tree_ok: "evolves s s' \<Longrightarrow> tree_ok s \<Longrightarrow> tree_ok s'"
proof (rule tree_okI)
  fix m k assume e: "evolves s s'" and t: "tree_ok s"
    and m: "m < length (heap s')" and k: "k \<in> set (kids s' m)"
  have "m < length (heap s)" using m evolves_length[OF e] by simp
  from tree_okD[OF t this evolves_kids[OF e k]]
  show "m < k \<and> k < length (heap s') \<and> parent (heap s' ! k) = Ref m"
    using evolves_length[OF e] evolves_parent[OF e] by simp
next
  fix m p assume e: "evolves s s'" and t: "tree_ok s"
    and m: "m < length (heap s')" and p: "parent (heap s' ! m) = Ref p"
  show "p < m" using tree_okD2[OF t, of m p] m p evolves_length[OF e] evolves_parent[OF e] by simp
qed

lemma evolves_races_ok: "evolves s s' \<Longrightarrow> races_ok s \<Longrightarrow> races_ok s'"
proof (rule races_okI)
  fix par c assume e: "evolves s s'" and r: "races_ok s" and i: "(par, c) \<in> set (races s')"
  then have "(par, c) \<in> set (races s)" using evolves_globals[OF e] by simp
  from races_okD[OF r this]
  show "c < length (heap s') \<and> parent (heap s' ! c) = par \<and> parentCancelCtx par = None"
    using evolves_length[OF e] evolves_parent[OF e] by simp
qed

section \<open>A cancel call keeps the invariant\<close>

lemma cancel_returns_wf:
  assumes t: "tree_ok s" and l: "live_ok s" and tm: "timers_ok s"
    and c: "c < length (heap s)" and call: "cancel s c b (Some r) = (x, s')"
  shows "x = Return ()"
proof (cases "err (heap s ! c) = None")
  case True
  from cancel_cascade(2)[OF call refl wf_sub_ok[OF t l c True]] show ?thesis by simp
next
  case False
  have "timer (heap s ! c) = None" using timers_okD1[OF tm c] False by simp
  from cancel_settled_idle[OF c False this, of b r] call show ?thesis by simp
qed

lemma cancel_wf:
  assumes wf: "wf_state s" and c: "c < length (heap s)"
    and call: "cancel s c b (Some r) = (x, s')"
    and par: "b \<or> (\<forall>p. parent (heap s ! c) = Ref p \<longrightarrow> p < length (heap s) \<longrightarrow> err (heap s ! p) \<noteq> None)"
  shows "wf_state s'"
proof (cases "err (heap s ! c) = None")
  case False
  have t: "timers_ok s" using wf by (simp add: wf_state_def)
  have "timer (heap s ! c) = None" using timers_okD1[OF t c] False by simp
  from cancel_settled_idle[OF c False this, of b r] call have "s' = s" by simp
  with wf show ?thesis by simp
next
  case lc: True
  have t: "tree_ok s" and l: "live_ok s" and tm: "timers_ok s" and ra: "races_ok s"
    using wf by (simp_all add: wf_state_def)
  have x: "x = Return ()" using cancel_returns_wf[OF t l tm c call] .
  have ev: "evolves s s'" using cancel_evolves(2)[OF call] by simp
  have len: "length (heap s') = length (heap s)" using evolves_length[OF ev] .
  have casc: "err (heap s' ! d) = Some r" if "d \<in> desc s c" for d
    using cancel_cascade(2)[OF call refl wf_sub_ok[OF t l c lc]] that by simp
  have frame: "err (heap s' ! m) = err (heap s ! m)" if "m \<notin> desc s c" for m
    using cancel_frame(2)[OF call that] by (simp split: if_splits)
  have t': "tree_ok s'" using evolves_tree_ok[OF ev t] .
  have ra': "races_ok s'" using evolves_races_ok[OF ev ra] .
  have l': "live_ok s'"
  proof (rule live_okI)
    fix m assume m: "m < length (heap s')" and lm: "err (heap s' ! m) = None"
    have m0: "m < length (heap s)" using m len by simp
    have lm0: "err (heap s ! m) = None" using evolves_live_back[OF ev lm] .
    show "done_field (heap s' ! m) \<noteq> Shared"
      using evolves_live_same[OF ev lm] live_okD[OF l m0 lm0] by simp
    have mout: "m \<notin> desc s c" using casc lm by auto
    fix k assume k: "k \<in> set (kids s' m)"
    have k0: "k \<in> set (kids s m)" using evolves_kids[OF ev k] .
    have lk0: "err (heap s ! k) = None" using live_okD[OF l m0 lm0] k0 by blast
    have pk: "parent (heap s ! k) = Ref m" using tree_okD[OF t m0 k0] by simp
    show "err (heap s' ! k) = None"
    proof (cases "k \<in> desc s c")
      case False
      from frame[OF this] lk0 show ?thesis by simp
    next
      case True
      then show ?thesis
      proof (cases rule: desc.cases)
        case desc_self
        then have kc: "k = c" by simp
        have "m < length (heap s) \<longrightarrow> err (heap s ! m) \<noteq> None" if "\<not> b"
          using par that pk kc by simp
        with m0 lm0 have b: b by blast
        have "children (heap s' ! m) = map_option (removeAll c) (children (heap s ! m))"
          using cancel_children(2)[OF call, of m] b x c lc pk kc m0 by simp
        then have "c \<notin> set (kids s' m)"
          by (cases "children (heap s ! m)") (simp_all add: kids_def)
        with k kc show ?thesis by simp
      next
        case (desc_kid j)
        have "j < length (heap s)" using desc_in_wf[OF t c desc_kid(1)] by simp
        from tree_okD[OF t this desc_kid(2)] pk have "j = m" by simp
        with desc_kid(1) mout show ?thesis by simp
      qed
    qed
  next
    fix m k assume m: "m < length (heap s')" and dm: "err (heap s' ! m) \<noteq> None"
      and k: "k \<in> set (kids s' m)"
    have m0: "m < length (heap s)" using m len by simp
    have k0: "k \<in> set (kids s m)" using evolves_kids[OF ev k] .
    show "err (heap s' ! k) \<noteq> None"
    proof (cases "err (heap s ! m) = None")
      case False
      from live_okD2[OF l m0 False k0] obtain e0 where "err (heap s ! k) = Some e0" by blast
      from evolves_err_kept[OF ev this] show ?thesis by simp
    next
      case True
      have "m \<in> desc s c"
      proof (rule ccontr)
        assume "m \<notin> desc s c"
        from frame[OF this] True dm show False by simp
      qed
      from casc[OF desc_kid[OF this k0]] show ?thesis by simp
    qed
  qed
  have tm': "timers_ok s'"
  proof (rule timers_okI)
    fix m assume m: "m < length (heap s')"
      and d: "err (heap s' ! m) \<noteq> None \<or> cls (heap s' ! m) = CancelCtx"
    have m0: "m < length (heap s)" using m len by simp
    show "timer (heap s' ! m) = None"
    proof (cases "err (heap s ! m) \<noteq> None \<or> cls (heap s ! m) = CancelCtx")
      case True
      from timers_okD1[OF tm m0 this] show ?thesis by (rule evolves_timer_None[OF ev])
    next
      case False
      then have a: "err (heap s ! m) = None" "cls (heap s ! m) = TimerCtx"
        by (simp, cases "cls (heap s ! m)", simp_all)
      then have "err (heap s' ! m) \<noteq> None" using d evolves_cls[OF ev, of m] by simp
      from cancel_clears_timers(2)[OF call x a(1) this a(2) m0] show ?thesis .
    qed
  next
    fix m h assume m: "m < length (heap s')" and h: "timer (heap s' ! m) = Some h"
    show "h < next_timer s'"
      using timers_okD2[OF tm _ evolves_timer_back[OF ev h]] m len evolves_globals[OF ev] by simp
  next
    fix m k h assume "m < length (heap s')" "k < length (heap s')"
      "timer (heap s' ! m) = Some h" "timer (heap s' ! k) = Some h"
    then show "k = m"
      using timers_okD2[OF tm, of m h] evolves_timer_back[OF ev] len by simp
  next
    fix h k assume p: "(h, k) \<in> set (pending s')"
    from evolves_pending[OF ev p] timers_okD3[OF tm, of h k]
    show "k < length (heap s') \<and> timer (heap s' ! k) = Some h" using len by simp
  qed
  show ?thesis using t' l' tm' ra' by (simp add: wf_state_def)
qed

section \<open>Derivations keep the invariant\<close>

lemma linked_races:
  "races (linked s n par) = races s \<or>
   (parentCancelCtx par = None \<and> races (linked s n par) = races s @ [(par, length (heap s))])"
  by (cases par; cases "err (heap s ! (case par of Ref p \<Rightarrow> p | _ \<Rightarrow> 0))";
      simp add: linked_def Let_def del: ctx_done.simps)+

lemma linked_old_done:
  assumes "m < length (heap s)" "done_field (heap (linked s n par) ! m) = Shared"
  shows "done_field (heap s ! m) = Shared"
  using assms
  by (cases par; cases "err (heap s ! (case par of Ref p \<Rightarrow> p | _ \<Rightarrow> 0))";
      simp add: linked_def Let_def settled_leaf_def heap_upd_nth ctx_done_Ref_other heap_alloc_nth
        del: ctx_done.simps split: if_splits)+

lemma linked_old_children:
  assumes "m < length (heap s)"
  shows "children (heap (linked s n par) ! m) =
     (if par = Ref m \<and> err (heap s ! m) = None
      then addChild (children (heap s ! m)) (length (heap s)) else children (heap s ! m))"
proof (cases par)
  case backgroundCtx
  with assms show ?thesis by (simp add: linked_def Let_def heap_alloc_nth)
next
  case (Foreign d pr e)
  with assms show ?thesis by (simp add: linked_def Let_def heap_alloc_nth heap_upd_nth)
next
  case (Ref p)
  show ?thesis
  proof (cases "err (heap s ! p)")
    case (Some e)
    with Ref assms show ?thesis
      by (auto simp add: linked_def Let_def settled_leaf_def heap_upd_nth ctx_done_Ref_other
          heap_alloc_nth simp del: ctx_done.simps)
  next
    case None
    with Ref assms show ?thesis
      by (simp add: linked_def Let_def heap_upd_nth ctx_done_Ref_other
          heap_alloc_nth del: ctx_done.simps)
  qed
qed

lemma addChild_set:
  "(case addChild cs c of None \<Rightarrow> [] | Some xs \<Rightarrow> xs) = ys \<Longrightarrow>
   set ys = insert c (set (case cs of None \<Rightarrow> [] | Some xs \<Rightarrow> xs))"
  by (cases cs) (auto simp: addChild_def split: if_splits)

lemma linked_old_kids:
  assumes "m < length (heap s)" "k \<in> set (kids (linked s n par) m)"
  shows "k \<in> set (kids s m) \<or> (k = length (heap s) \<and> par = Ref m \<and> err (heap s ! m) = None)"
proof (cases "par = Ref m \<and> err (heap s ! m) = None")
  case True
  then have "children (heap (linked s n par) ! m) = addChild (children (heap s ! m)) (length (heap s))"
    using linked_old_children[OF assms(1)] by simp
  then have "set (kids (linked s n par) m) = insert (length (heap s)) (set (kids s m))"
    using addChild_set[OF refl, of "children (heap s ! m)" "length (heap s)"] by (simp add: kids_def)
  with assms(2) True show ?thesis by auto
next
  case False
  then have "children (heap (linked s n par) ! m) = children (heap s ! m)"
    using linked_old_children[OF assms(1), of n par] by auto
  then have "kids (linked s n par) m = kids s m" by (simp add: kids_def)
  with assms(2) show ?thesis by simp
qed

lemma linked_old_kids_mono:
  assumes "m < length (heap s)" "k \<in> set (kids s m)"
  shows "k \<in> set (kids (linked s n par) m)"
proof (cases "par = Ref m \<and> err (heap s ! m) = None")
  case True
  then have "children (heap (linked s n par) ! m) = addChild (children (heap s ! m)) (length (heap s))"
    using linked_old_children[OF assms(1)] by simp
  then have "set (kids (linked s n par) m) = insert (length (heap s)) (set (kids s m))"
    using addChild_set[OF refl, of "children (heap s ! m)" "length (heap s)"] by (simp add: kids_def)
  with assms(2) show ?thesis by auto
next
  case False
  then have "children (heap (linked s n par) ! m) = children (heap s ! m)"
    using linked_old_children[OF assms(1), of n par] by auto
  then have "kids (linked s n par) m = kids s m" by (simp add: kids_def)
  with assms(2) show ?thesis by simp
qed

lemma linked_new_kids:
  assumes "valid_ctx s par" "children n = None"
  shows "kids (linked s n par) (length (heap s)) = []"
  using assms
  by (cases par; cases "err (heap s ! (case par of Ref p \<Rightarrow> p | _ \<Rightarrow> 0))";
      simp add: linked_def Let_def settled_leaf_def heap_upd_nth ctx_done_Ref_other heap_alloc_nth
        kids_def del: ctx_done.simps)+

lemma linked_new_done:
  assumes "valid_ctx s par" "done_field n = Unset" "err (heap (linked s n par) ! length (heap s)) = None"
  shows "done_field (heap (linked s n par) ! length (heap s)) \<noteq> Shared"
  using assms
  by (cases par; cases "err (heap s ! (case par of Ref p \<Rightarrow> p | _ \<Rightarrow> 0))";
      simp add: linked_def Let_def settled_leaf_def heap_upd_nth ctx_done_Ref_other heap_alloc_nth
        del: ctx_done.simps)+

lemma linked_wf:
  assumes wf: "wf_state s" and v: "valid_ctx s par" and f: "fresh n" and pn: "parent n = par"
  shows "wf_state (linked s n par)"
proof -
  let ?c = "length (heap s)"
  let ?s = "linked s n par"
  have t: "tree_ok s" and l: "live_ok s" and tm: "timers_ok s" and ra: "races_ok s"
    using wf by (simp_all add: wf_state_def)
  have len: "length (heap ?s) = Suc ?c" by (rule linked_fields)
  have fn: "err n = None" "done_field n = Unset" "children n = None" "timer n = None"
    using f by (simp_all add: fresh_def)
  have nk: "kids ?s ?c = []" using linked_new_kids[OF v fn(3)] .
  have split: "m < ?c \<or> m = ?c" if "m < length (heap ?s)" for m using that len by auto
  have t': "tree_ok ?s"
  proof (rule tree_okI)
    fix m k assume m: "m < length (heap ?s)" and k: "k \<in> set (kids ?s m)"
    from split[OF m] nk k have m0: "m < ?c" by auto
    from linked_old_kids[OF m0 k]
    show "m < k \<and> k < length (heap ?s) \<and> parent (heap ?s ! k) = Ref m"
    proof
      assume k0: "k \<in> set (kids s m)"
      from tree_okD[OF t m0 k0] show ?thesis using len linked_old(2)[of k s n par] by simp
    next
      assume "k = ?c \<and> par = Ref m \<and> err (heap s ! m) = None"
      then show ?thesis using m0 len linked_new(2)[OF v, of n] pn by simp
    qed
  next
    fix m p assume m: "m < length (heap ?s)" and p: "parent (heap ?s ! m) = Ref p"
    from split[OF m] show "p < m"
    proof
      assume m0: "m < ?c"
      then show ?thesis using tree_okD2[OF t m0, of p] p linked_old(2)[OF m0, of n par] by simp
    next
      assume "m = ?c"
      then show ?thesis using p linked_new(2)[OF v, of n] pn v by simp
    qed
  qed
  have l': "live_ok ?s"
  proof (rule live_okI)
    fix m k assume m: "m < length (heap ?s)" and lm: "err (heap ?s ! m) = None"
      and k: "k \<in> set (kids ?s m)"
    from split[OF m] nk k have m0: "m < ?c" by auto
    have lm0: "err (heap s ! m) = None" using lm linked_old(5)[OF m0, of n par] by simp
    from linked_old_kids[OF m0 k] show "err (heap ?s ! k) = None"
    proof
      assume k0: "k \<in> set (kids s m)"
      have "k < ?c" using tree_okD[OF t m0 k0] by simp
      then show ?thesis using live_okD[OF l m0 lm0] k0 linked_old(5)[of k s n par] by simp
    next
      assume "k = ?c \<and> par = Ref m \<and> err (heap s ! m) = None"
      then show ?thesis using linked_new(5)[OF v, of n] fn by simp
    qed
  next
    fix m assume m: "m < length (heap ?s)" and lm: "err (heap ?s ! m) = None"
    from split[OF m] show "done_field (heap ?s ! m) \<noteq> Shared"
    proof
      assume m0: "m < ?c"
      have lm0: "err (heap s ! m) = None" using lm linked_old(5)[OF m0, of n par] by simp
      from live_okD[OF l m0 lm0] linked_old_done[OF m0, of n par] show ?thesis by blast
    next
      assume "m = ?c"
      then show ?thesis using linked_new_done[OF v fn(2)] lm by simp
    qed
  next
    fix m k assume m: "m < length (heap ?s)" and dm: "err (heap ?s ! m) \<noteq> None"
      and k: "k \<in> set (kids ?s m)"
    from split[OF m] nk k have m0: "m < ?c" by auto
    have dm0: "err (heap s ! m) \<noteq> None" using dm linked_old(5)[OF m0, of n par] by simp
    from linked_old_kids[OF m0 k] dm0 have k0: "k \<in> set (kids s m)" by blast
    have "k < ?c" using tree_okD[OF t m0 k0] by simp
    then show "err (heap ?s ! k) \<noteq> None"
      using live_okD2[OF l m0 dm0 k0] linked_old(5)[of k s n par] by simp
  qed
  have tnew: "timer (heap ?s ! ?c) = None" using linked_new(4)[OF v, of n] fn by simp
  have told: "timer (heap ?s ! m) = Some h \<Longrightarrow> m < length (heap ?s) \<Longrightarrow>
      m < ?c \<and> timer (heap s ! m) = Some h" for m h
    using split[of m] tnew linked_old(4)[of m s n par] by auto
  have tm': "timers_ok ?s"
  proof (rule timers_okI)
    fix m assume m: "m < length (heap ?s)"
      and d: "err (heap ?s ! m) \<noteq> None \<or> cls (heap ?s ! m) = CancelCtx"
    from split[OF m] show "timer (heap ?s ! m) = None"
    proof
      assume m0: "m < ?c"
      from timers_okD1[OF tm m0] d show ?thesis
        using linked_old(1,4,5)[OF m0, of n par] by simp
    next
      assume "m = ?c"
      then show ?thesis using tnew by simp
    qed
  next
    fix m h assume "m < length (heap ?s)" "timer (heap ?s ! m) = Some h"
    from told[OF this(2,1)] show "h < next_timer ?s"
      using timers_okD2[OF tm, of m h] by (simp add: linked_fields)
  next
    fix m k h assume a: "m < length (heap ?s)" "k < length (heap ?s)"
      "timer (heap ?s ! m) = Some h" "timer (heap ?s ! k) = Some h"
    from told[OF a(3,1)] told[OF a(4,2)] show "k = m"
      using timers_okD2[OF tm, of m h] by simp
  next
    fix h k assume "(h, k) \<in> set (pending ?s)"
    then have "(h, k) \<in> set (pending s)" by (simp add: linked_fields)
    from timers_okD3[OF tm this]
    show "k < length (heap ?s) \<and> timer (heap ?s ! k) = Some h"
      using len linked_old(4)[of k s n par] by simp
  qed
  have ra': "races_ok ?s"
  proof (rule races_okI)
    fix q k assume i: "(q, k) \<in> set (races ?s)"
    from linked_races[of s n par] i
    have "(q, k) \<in> set (races s) \<or> (q = par \<and> k = ?c \<and> parentCancelCtx par = None)" by auto
    then show "k < length (heap ?s) \<and> parent (heap ?s ! k) = q \<and> parentCancelCtx q = None"
    proof
      assume "(q, k) \<in> set (races s)"
      from races_okD[OF ra this] show ?thesis using len linked_old(2)[of k s n par] by simp
    next
      assume "q = par \<and> k = ?c \<and> parentCancelCtx par = None"
      then show ?thesis using len linked_new(2)[OF v, of n] pn by simp
    qed
  qed
  show ?thesis using t' l' tm' ra' by (simp add: wf_state_def)
qed

lemma parts_cong:
  assumes len: "length (heap s') = length (heap s)"
    and kids: "\<And>m. kids s' m = kids s m"
    and par: "\<And>m. parent (heap s' ! m) = parent (heap s ! m)"
    and err: "\<And>m. err (heap s' ! m) = err (heap s ! m)"
    and dn: "\<And>m. done_field (heap s' ! m) = Shared \<longrightarrow> done_field (heap s ! m) = Shared"
  shows "tree_ok s \<Longrightarrow> tree_ok s'" "live_ok s \<Longrightarrow> live_ok s'"
    "races s' = races s \<Longrightarrow> races_ok s \<Longrightarrow> races_ok s'"
proof -
  show "tree_ok s \<Longrightarrow> tree_ok s'"
    unfolding tree_ok_def len kids par .
  show "live_ok s \<Longrightarrow> live_ok s'"
    unfolding live_ok_def live_def len kids err using dn by blast
  show "races s' = races s \<Longrightarrow> races_ok s \<Longrightarrow> races_ok s'"
    unfolding races_ok_def len par by simp
qed

lemma timers_cong:
  assumes len: "length (heap s') = length (heap s)"
    and cls: "\<And>m. cls (heap s' ! m) = cls (heap s ! m)"
    and err: "\<And>m. err (heap s' ! m) = err (heap s ! m)"
    and tmr: "\<And>m. timer (heap s' ! m) = timer (heap s ! m)"
    and nt: "next_timer s' = next_timer s"
    and pe: "set (pending s') \<subseteq> set (pending s)"
    and ok: "timers_ok s"
  shows "timers_ok s'"
proof (rule timers_okI)
  fix h c assume "(h, c) \<in> set (pending s')"
  then have "(h, c) \<in> set (pending s)" using pe by blast
  from timers_okD3[OF ok this] show "c < length (heap s') \<and> timer (heap s' ! c) = Some h"
    unfolding len tmr .
next
  fix m assume "m < length (heap s')" "err (heap s' ! m) \<noteq> None \<or> cls (heap s' ! m) = CancelCtx"
  then show "timer (heap s' ! m) = None"
    unfolding len tmr err cls using timers_okD1[OF ok] by blast
next
  fix m h assume "m < length (heap s')" "timer (heap s' ! m) = Some h"
  then show "h < next_timer s'" unfolding len tmr nt using timers_okD2[OF ok] by blast
next
  fix m k h assume "m < length (heap s')" "k < length (heap s')"
      "timer (heap s' ! m) = Some h" "timer (heap s' ! k) = Some h"
  then show "k = m" unfolding len tmr using timers_okD2[OF ok] by blast
qed

lemma wf_drop_pending:
  assumes "wf_state s"
  shows "wf_state (s\<lparr>pending := filter P (pending s)\<rparr>)"
proof -
  let ?s = "s\<lparr>pending := filter P (pending s)\<rparr>"
  have k: "kids ?s m = kids s m" for m by (simp add: kids_def)
  have "tree_ok ?s" "live_ok ?s" "races_ok ?s"
    using parts_cong[where s' = ?s and s = s, OF _ k] assms by (simp_all add: wf_state_def)
  moreover have "timers_ok ?s"
    using timers_cong[where s' = ?s and s = s] assms by (simp add: wf_state_def)
  ultimately show ?thesis by (simp add: wf_state_def)
qed

lemma wf_drop_race:
  assumes "wf_state s"
  shows "wf_state (s\<lparr>races := take i (races s) @ drop (Suc i) (races s)\<rparr>)"
proof -
  let ?s = "s\<lparr>races := take i (races s) @ drop (Suc i) (races s)\<rparr>"
  have sub: "set (races ?s) \<subseteq> set (races s)"
    using set_take_subset[of i "races s"] set_drop_subset[of "Suc i" "races s"] by auto
  have k: "kids ?s m = kids s m" for m by (simp add: kids_def)
  have "races_ok ?s"
  proof (rule races_okI)
    fix par c assume "(par, c) \<in> set (races ?s)"
    then have "(par, c) \<in> set (races s)" using sub by blast
    from races_okD[OF _ this] assms
    show "c < length (heap ?s) \<and> parent (heap ?s ! c) = par \<and> parentCancelCtx par = None"
      by (simp add: wf_state_def)
  qed
  moreover have "timers_ok ?s"
    using timers_cong[where s' = ?s and s = s] assms by (simp add: wf_state_def)
  moreover have "tree_ok ?s" "live_ok ?s"
    using parts_cong(1,2)[where s' = ?s and s = s, OF _ k] assms by (simp_all add: wf_state_def)
  ultimately show ?thesis by (simp add: wf_state_def)
qed

lemma ctx_done_wf:
  assumes wf: "wf_state s"
  shows "wf_state (snd (ctx_done s k))"
proof (cases k)
  case (Ref c)
  show ?thesis
  proof (cases "done_field (heap s ! c) = Unset \<and> c < length (heap s)")
    case False
    then have "snd (ctx_done s k) = s"
      using Ref by (cases "done_field (heap s ! c)") (simp_all add: upd_def list_update_beyond)
    with wf show ?thesis by simp
  next
    case True
    let ?s = "upd s c (\<lambda>n. n\<lparr>done_field := Own False\<rparr>)"
    have eq: "snd (ctx_done s k) = ?s" using Ref True by simp
    have nth: "heap ?s ! m = (if m = c then (heap s ! c)\<lparr>done_field := Own False\<rparr> else heap s ! m)" for m
      using True by (simp add: heap_upd_nth)
    have k: "kids ?s m = kids s m" for m by (simp add: kids_def nth)
    have t: "tree_ok s" and l: "live_ok s" and tm: "timers_ok s" and ra: "races_ok s"
      using wf by (simp_all add: wf_state_def)
    have len: "length (heap ?s) = length (heap s)" by simp
    have pa: "parent (heap ?s ! m) = parent (heap s ! m)" for m by (simp add: nth)
    have er: "err (heap ?s ! m) = err (heap s ! m)" for m by (simp add: nth)
    have cl: "cls (heap ?s ! m) = cls (heap s ! m)" for m by (simp add: nth)
    have ti: "timer (heap ?s ! m) = timer (heap s ! m)" for m by (simp add: nth)
    have dn: "done_field (heap ?s ! m) = Shared \<longrightarrow> done_field (heap s ! m) = Shared" for m
      by (simp add: nth)
    note pc = parts_cong[where s' = ?s and s = s, OF len k pa er dn]
    have "tree_ok ?s" using pc(1)[OF t] .
    moreover have "live_ok ?s" using pc(2)[OF l] .
    moreover have "races_ok ?s" using pc(3)[OF _ ra] by simp
    moreover have "timers_ok ?s" using timers_cong[where s' = ?s and s = s, OF len cl er ti _ _ tm] by simp
    ultimately show ?thesis unfolding eq by (simp add: wf_state_def)
  qed
qed (use wf in simp_all)

section \<open>Executions keep the invariant\<close>

lemma timers_okD2a:
  "timers_ok s \<Longrightarrow> m < length (heap s) \<Longrightarrow> timer (heap s ! m) = Some h \<Longrightarrow> h < next_timer s"
  unfolding timers_ok_def by blast

lemma timers_okD2b:
  "timers_ok s \<Longrightarrow> m < length (heap s) \<Longrightarrow> k < length (heap s) \<Longrightarrow>
     timer (heap s ! m) = Some h \<Longrightarrow> timer (heap s ! k) = Some h \<Longrightarrow> k = m"
  unfolding timers_ok_def by blast

lemma setTimeout_nth:
  "c < length (heap s) \<Longrightarrow>
   heap (setTimeout s c) ! m =
     (if m = c then (heap s ! c)\<lparr>timer := Some (next_timer s)\<rparr> else heap s ! m)"
  by (simp add: setTimeout_def heap_upd_nth)

lemma setTimeout_fields [simp]:
  "length (heap (setTimeout s c)) = length (heap s)"
  "pending (setTimeout s c) = pending s @ [(next_timer s, c)]"
  "next_timer (setTimeout s c) = Suc (next_timer s)"
  "races (setTimeout s c) = races s"
  by (simp_all add: setTimeout_def)

lemma setTimeout_wf:
  assumes wf: "wf_state s" and c: "c < length (heap s)" and lc: "err (heap s ! c) = None"
    and tc: "cls (heap s ! c) = TimerCtx" and nc: "timer (heap s ! c) = None"
  shows "wf_state (setTimeout s c)"
proof -
  let ?s = "setTimeout s c"
  note nth = setTimeout_nth[OF c]
  have t: "tree_ok s" and l: "live_ok s" and tm: "timers_ok s" and ra: "races_ok s"
    using wf by (simp_all add: wf_state_def)
  have len: "length (heap ?s) = length (heap s)" by simp
  have k: "kids ?s m = kids s m" for m by (simp add: kids_def nth)
  have pa: "parent (heap ?s ! m) = parent (heap s ! m)" for m by (simp add: nth)
  have er: "err (heap ?s ! m) = err (heap s ! m)" for m by (simp add: nth)
  have cl: "cls (heap ?s ! m) = cls (heap s ! m)" for m by (simp add: nth)
  have dn: "done_field (heap ?s ! m) = Shared \<longrightarrow> done_field (heap s ! m) = Shared" for m
    by (simp add: nth)
  have ti: "timer (heap ?s ! m) = (if m = c then Some (next_timer s) else timer (heap s ! m))" for m
    by (simp add: nth)
  note pc = parts_cong[where s' = ?s and s = s, OF len k pa er dn]
  have "tree_ok ?s" using pc(1)[OF t] .
  moreover have "live_ok ?s" using pc(2)[OF l] .
  moreover have "races_ok ?s" using pc(3)[OF _ ra] by simp
  moreover have "timers_ok ?s"
  proof (rule timers_okI)
    fix m assume m: "m < length (heap ?s)"
      and d: "err (heap ?s ! m) \<noteq> None \<or> cls (heap ?s ! m) = CancelCtx"
    have mc: "m \<noteq> c" using d lc tc unfolding er cl by auto
    have "timer (heap s ! m) = None" using timers_okD1[OF tm, of m] m d unfolding er cl by simp
    then show "timer (heap ?s ! m) = None" using mc by (simp add: ti)
  next
    fix m h assume m: "m < length (heap ?s)" and h: "timer (heap ?s ! m) = Some h"
    show "h < next_timer ?s"
    proof (cases "m = c")
      case True
      with h show ?thesis by (simp add: ti)
    next
      case False
      with h have "timer (heap s ! m) = Some h" by (simp add: ti)
      from timers_okD2a[OF tm _ this] m show ?thesis by simp
    qed
  next
    fix m k h assume a: "m < length (heap ?s)" "k < length (heap ?s)"
      "timer (heap ?s ! m) = Some h" "timer (heap ?s ! k) = Some h"
    have fresh: "timer (heap s ! j) \<noteq> Some (next_timer s)" if "j < length (heap s)" for j
      using timers_okD2a[OF tm that, of "next_timer s"] by auto
    show "k = m"
    proof (cases "m = c")
      case mc: True
      then have hh: "h = next_timer s" using a(3) by (simp add: ti)
      show ?thesis
      proof (cases "k = c")
        case True
        with mc show ?thesis by simp
      next
        case False
        then have "timer (heap s ! k) = Some (next_timer s)" using a(4) hh by (simp add: ti)
        with fresh[of k] a(2) show ?thesis by simp
      qed
    next
      case mc: False
      then have tm0: "timer (heap s ! m) = Some h" using a(3) by (simp add: ti)
      show ?thesis
      proof (cases "k = c")
        case True
        then have "h = next_timer s" using a(4) by (simp add: ti)
        with tm0 fresh[of m] a(1) show ?thesis by simp
      next
        case False
        then have "timer (heap s ! k) = Some h" using a(4) by (simp add: ti)
        from timers_okD2b[OF tm _ _ tm0 this] a(1,2) show ?thesis by simp
      qed
    qed
  next
    fix h k assume "(h, k) \<in> set (pending ?s)"
    then have "(h, k) \<in> set (pending s) \<or> (h = next_timer s \<and> k = c)" by auto
    then show "k < length (heap ?s) \<and> timer (heap ?s ! k) = Some h"
    proof
      assume p: "(h, k) \<in> set (pending s)"
      from timers_okD3[OF tm p] nc show ?thesis by (auto simp: ti)
    next
      assume "h = next_timer s \<and> k = c"
      then show ?thesis using c by (simp add: ti)
    qed
  qed
  ultimately show ?thesis by (simp add: wf_state_def)
qed

lemma cancel_None: "cancel s c b None = (Throw MissingCancelError, s)"
  by (simp add: cancel.simps CancelCtx_cancel.simps)

lemma new_parent [simp]:
  "parent (new_CancelCtx par) = par" "parent (new_TimerCtx par d) = par"
  by (simp_all add: new_CancelCtx_def new_TimerCtx_def)

lemma withCancel_wf:
  assumes "wf_state s" "valid_ctx s par"
  shows "wf_state (snd (withCancel s par))"
  using linked_wf[OF assms fresh_new(1) new_parent(1)] withCancel_eq[OF assms(2)]
  by simp

lemma withDeadline_wf:
  assumes wf: "wf_state s" and v: "valid_ctx s par"
  shows "wf_state (snd (withDeadline s par d now)) \<and>
         fst (withDeadline s par d now) = Return (Ref (length (heap s)))"
proof (cases "case ctx_deadline s par of None \<Rightarrow> False | Some pd \<Rightarrow> date_less pd d")
  case True
  then have "withDeadline s par d now = withCancel s par" by (simp add: withDeadline_def)
  then show ?thesis using withCancel_wf[OF wf v] withCancel_eq[OF v] by simp
next
  case False
  let ?c = "length (heap s)"
  let ?n = "new_TimerCtx par d"
  let ?s1 = "linked s ?n par"
  have pc: "propagateCancel (alloc s ?n) par ?c = (Return (), ?s1)"
    using propagateCancel_fresh[OF v] by simp
  have wf1: "wf_state ?s1" using linked_wf[OF wf v fresh_new(2) new_parent(2)] .
  have c1: "?c < length (heap ?s1)" by (simp add: linked_fields)
  have cls1: "cls (heap ?s1 ! ?c) = TimerCtx" "timer (heap ?s1 ! ?c) = None"
    using linked_new(1,4)[OF v, of ?n] by (simp_all add: new_TimerCtx_def)
  show ?thesis
  proof (cases "passed d now")
    case expired: True
    obtain x s2 where cc: "cancel ?s1 ?c True (Some deadlineExceededErr) = (x, s2)"
      by (cases "cancel ?s1 ?c True (Some deadlineExceededErr)")
    have x: "x = Return ()"
      using cancel_returns_wf[OF _ _ _ c1 cc] wf1 by (simp add: wf_state_def)
    have "wf_state s2" using cancel_wf[OF wf1 c1 cc] by simp
    moreover have "withDeadline s par d now = (Return (Ref ?c), s2)"
      using False pc expired cc x by (simp add: withDeadline_def Let_def)
    ultimately show ?thesis by simp
  next
    case pending: False
    show ?thesis
    proof (cases "err (heap ?s1 ! ?c) = None")
      case True
      have "withDeadline s par d now = (Return (Ref ?c), setTimeout ?s1 ?c)"
        using False pc pending True by (simp add: withDeadline_def Let_def)
      then show ?thesis using setTimeout_wf[OF wf1 c1 True cls1] by simp
    next
      case settled: False
      have "withDeadline s par d now = (Return (Ref ?c), ?s1)"
        using False pc pending settled by (auto simp: withDeadline_def Let_def)
      then show ?thesis using wf1 by simp
    qed
  qed
qed

lemma init_wf: "wf_state init"
  by (simp add: wf_state_def tree_ok_def live_ok_def timers_ok_def races_ok_def init_def)

lemma exec_wf:
  assumes wf: "wf_state s"
  shows "wf_state (exec s ev)"
proof (cases ev)
  case (WithCancel par)
  then show ?thesis using withCancel_wf[OF wf] wf by simp
next
  case (WithDeadline par d now)
  then show ?thesis using withDeadline_wf[OF wf] wf by simp
next
  case (WithTimeout par t now1 now2)
  then show ?thesis using withDeadline_wf[OF wf] wf by (simp add: withTimeout_def)
next
  case (CallCancel c)
  show ?thesis
  proof (cases "c < length (heap s)")
    case True
    obtain x s' where cc: "cancel s c True (Some cancelledErr) = (x, s')"
      by (cases "cancel s c True (Some cancelledErr)")
    from cancel_wf[OF wf True cc] cc CallCancel True show ?thesis by simp
  next
    case False
    with CallCancel wf show ?thesis by simp
  qed
next
  case (CallDone k)
  then show ?thesis using ctx_done_wf[OF wf] wf by simp
next
  case (TimerFires h)
  show ?thesis
  proof (cases "find (\<lambda>e. fst e = h) (pending s)")
    case None
    with TimerFires wf show ?thesis by simp
  next
    case (Some hc)
    obtain h' c where hc: "hc = (h', c)" by (cases hc)
    have "(h', c) \<in> set (pending s)"
      using Some hc by (auto simp: find_Some_iff in_set_conv_nth)
    then have c: "c < length (heap s)"
      using timers_okD3[of s h' c] wf by (simp add: wf_state_def)
    let ?s0 = "s\<lparr>pending := filter (\<lambda>e. fst e \<noteq> h) (pending s)\<rparr>"
    have wf0: "wf_state ?s0" using wf_drop_pending[OF wf] .
    have c0: "c < length (heap ?s0)" using c by simp
    obtain x s' where cc: "cancel ?s0 c True (Some deadlineExceededErr) = (x, s')"
      by (cases "cancel ?s0 c True (Some deadlineExceededErr)")
    from cancel_wf[OF wf0 c0 cc] cc TimerFires Some hc show ?thesis by simp
  qed
next
  case (RaceSettles i cancelChild e)
  show ?thesis
  proof (cases "i < length (races s)")
    case False
    with RaceSettles wf show ?thesis by simp
  next
    case True
    let ?child = "snd (races s ! i)"
    let ?s1 = "s\<lparr>races := take i (races s) @ drop (Suc i) (races s)\<rparr>"
    have wf1: "wf_state ?s1" using wf_drop_race[OF wf] .
    have "(fst (races s ! i), ?child) \<in> set (races s)" using True by simp
    from races_okD[OF _ this] wf
    have ch: "?child < length (heap s)" "parentCancelCtx (parent (heap s ! ?child)) = None"
      by (simp_all add: wf_state_def)
    show ?thesis
    proof (cases "cancelChild")
      case False
      with RaceSettles True wf1 show ?thesis by (simp add: Let_def)
    next
      case cancelChild: True
      show ?thesis
      proof (cases e)
        case None
        with RaceSettles True wf1 cancelChild show ?thesis by (simp add: Let_def cancel_None)
      next
        case (Some r)
        obtain x s' where cc: "cancel ?s1 ?child False (Some r) = (x, s')"
          by (cases "cancel ?s1 ?child False (Some r)")
        have np: "\<forall>p. parent (heap ?s1 ! ?child) = Ref p \<longrightarrow> p < length (heap ?s1) \<longrightarrow>
            err (heap ?s1 ! p) \<noteq> None"
          using ch(2) by auto
        have "wf_state s'" using cancel_wf[OF wf1 _ cc] ch(1) np by simp
        with RaceSettles True cancelChild Some cc show ?thesis by (simp add: Let_def)
      qed
    qed
  qed
qed

lemma run_wf: "wf_state s \<Longrightarrow> wf_state (run s evs)"
  unfolding run_def by (induction evs arbitrary: s) (simp_all add: exec_wf)

lemma reachable_wf: "wf_state (run init evs)"
  using run_wf[OF init_wf] .

section \<open>Timers outside the subtree\<close>

lemma resolveDone_pending [simp]: "pending (snd (resolveDone s c)) = pending s"
  by (simp add: resolveDone_def split: done_slot.splits)

lemma clearTimer_pending:
  "(h, k) \<in> set (pending s) \<Longrightarrow> (h, k) \<notin> set (pending (clearTimer s c)) \<Longrightarrow>
   timer (heap s ! c) = Some h"
  by (cases "timer (heap s ! c)") (auto simp: clearTimer_def)

lemma cancel_pending_lost:
  "CancelCtx_cancel s c b e = (x, s') \<Longrightarrow> (h, k) \<in> set (pending s) \<Longrightarrow>
     (h, k) \<notin> set (pending s') \<Longrightarrow> \<exists>d\<in>desc s c. timer (heap s ! d) = Some h"
  "cancel s1 c1 b1 e1 = (x1, s1') \<Longrightarrow> (h, k) \<in> set (pending s1) \<Longrightarrow>
     (h, k) \<notin> set (pending s1') \<Longrightarrow> \<exists>d\<in>desc s1 c1. timer (heap s1 ! d) = Some h"
  "cancelChildren s2 cs r = (x2, s2') \<Longrightarrow> (h, k) \<in> set (pending s2) \<Longrightarrow>
     (h, k) \<notin> set (pending s2') \<Longrightarrow> \<exists>j\<in>set cs. \<exists>d\<in>desc s2 j. timer (heap s2 ! d) = Some h"
proof (induction s c b e and s1 c1 b1 e1 and s2 cs r arbitrary: x s' and x1 s1' and x2 s2'
    rule: CancelCtx_cancel_cancel_cancelChildren.induct)
  case (1 s c removeFromParent e)
  note call = 1(2) and had = 1(3) and lost = 1(4)
  show ?case
  proof (cases e)
    case None
    with call had lost show ?thesis by (simp add: CancelCtx_cancel.simps)
  next
    case (Some r)
    show ?thesis
    proof (cases "length (heap s) \<le> c \<or> err (heap s ! c) \<noteq> None")
      case True
      with call Some have "s' = s" by (simp add: CancelCtx_cancel.simps)
      with had lost show ?thesis by simp
    next
      case False
      let ?s0 = "upd s c (\<lambda>n. n\<lparr>err := Some r\<rparr>)"
      obtain y s1 where rd: "resolveDone ?s0 c = (y, s1)" by (cases "resolveDone ?s0 c")
      have s1: "s1 = snd (resolveDone ?s0 c)" using rd by simp
      have p1: "pending s1 = pending s" unfolding s1 by simp
      have t1: "timer (heap s1 ! m) = timer (heap s ! m)" for m
        unfolding s1 by (simp add: resolveDone_nth heap_upd_nth split: done_slot.splits)
      have k1: "kids s1 j = kids s j" for j
        unfolding s1 kids_def by (simp add: resolveDone_nth heap_upd_nth split: done_slot.splits)
      have d1: "desc s1 j = desc s j" for j by (rule desc_cong) (rule k1)
      show ?thesis
      proof (cases y)
        case (Throw ex)
        with call Some False rd have "s' = s1" by (simp add: CancelCtx_cancel.simps)
        with had lost p1 show ?thesis by simp
      next
        case (Return u)
        obtain z s2 where cc: "cancelChildren s1 (kids s1 c) r = (z, s2)"
          by (cases "cancelChildren s1 (kids s1 c) r")
        have "pending s' = pending s2"
          using call Some False rd Return cc by (cases z) (auto simp: CancelCtx_cancel.simps)
        with lost have l2: "(h, k) \<notin> set (pending s2)" by simp
        from 1(1)[OF Some False rd[symmetric] Return cc _ l2] had p1
        obtain j d where "j \<in> set (kids s c)" "d \<in> desc s j" "timer (heap s ! d) = Some h"
          by (auto simp: k1 d1 t1)
        then show ?thesis using desc_of_kid by blast
      qed
    qed
  qed
next
  case (2 s c removeFromParent e)
  note call = 2(2) and had = 2(3) and lost = 2(4)
  obtain y s1 where cc: "CancelCtx_cancel s c removeFromParent e = (y, s1)"
    by (cases "CancelCtx_cancel s c removeFromParent e")
  have ev: "evolves s s1" using cancel_evolves(1)[OF cc] by simp
  show ?case
  proof (cases "(h, k) \<in> set (pending s1)")
    case False
    from 2(1)[OF cc had False] show ?thesis .
  next
    case True
    have "s1' = s1 \<or> s1' = clearTimer s1 c"
      using call cc by (cases y) (auto simp: cancel.simps)
    with True lost have "s1' = clearTimer s1 c" by auto
    from clearTimer_pending[OF True] lost this have "timer (heap s1 ! c) = Some h" by simp
    from evolves_timer_back[OF ev this] show ?thesis using desc_self by blast
  qed
next
  case (3 s r)
  then show ?case by simp
next
  case (4 s c cs r)
  note call = 4(3) and had = 4(4) and lost = 4(5)
  obtain y s1 where cc: "cancel s c False (Some r) = (y, s1)"
    by (cases "cancel s c False (Some r)")
  have ev: "evolves s s1" using cancel_evolves(2)[OF cc] by simp
  show ?case
  proof (cases "(h, k) \<in> set (pending s1)")
    case False
    from 4(1)[OF cc had False] show ?thesis by auto
  next
    case True
    have y: "y = Return ()"
    proof (cases y)
      case (Throw ex)
      with call cc have "s2' = s1" by simp
      with True lost show ?thesis by simp
    qed simp
    from call cc y have r: "cancelChildren s1 cs r = (x2, s2')" by simp
    from 4(2)[OF cc[symmetric] y r True lost]
    obtain j d where "j \<in> set cs" "d \<in> desc s1 j" "timer (heap s1 ! d) = Some h" by blast
    then have "j \<in> set (c # cs)" "d \<in> desc s j" "timer (heap s ! d) = Some h"
      using evolves_timer_back[OF ev] cancel_desc_same(1)[OF cc] by simp_all
    then show ?thesis by blast
  qed
qed


section \<open>Settled nodes stay as they are\<close>

lemma grows_refl: "grows s s"
  by (simp add: grows_def)

lemma grows_trans: "grows s s1 \<Longrightarrow> grows s1 s2 \<Longrightarrow> grows s s2"
  unfolding grows_def by (metis (no_types, lifting) le_trans less_le_trans)

lemma grows_heap_eq: "heap s' = heap s \<Longrightarrow> grows s s'"
  by (simp add: grows_def)

lemma evolves_grows: "evolves s s' \<Longrightarrow> grows s s'"
  by (simp add: evolves_def grows_def)

lemma cancel_grows: "grows s (snd (cancel s c b e))"
  using cancel_evolves(2)[of s c b e "fst (cancel s c b e)" "snd (cancel s c b e)"]
  by (simp add: evolves_grows)

lemma linked_grows: "grows s (linked s n par)"
  by (simp add: grows_def linked_fields linked_old)

lemma ctx_done_grows: "grows s (snd (ctx_done s k))"
proof (cases k)
  case (Ref c)
  then show ?thesis
    by (auto simp add: grows_def ctx_done_Ref_other simp del: ctx_done.simps)
qed (simp_all add: grows_refl)

lemma setTimeout_grows: "grows s (setTimeout s c)"
  by (simp add: grows_def setTimeout_def heap_upd_nth)

lemma withCancel_grows: "valid_ctx s par \<Longrightarrow> grows s (snd (withCancel s par))"
  by (simp add: withCancel_eq linked_grows)

lemma withDeadline_grows:
  assumes v: "valid_ctx s par"
  shows "grows s (snd (withDeadline s par d now))"
proof (cases "case ctx_deadline s par of None \<Rightarrow> False | Some pd \<Rightarrow> date_less pd d")
  case True
  then have "withDeadline s par d now = withCancel s par" by (simp add: withDeadline_def)
  then show ?thesis using withCancel_grows[OF v] by simp
next
  case False
  let ?c = "length (heap s)"
  let ?s1 = "linked s (new_TimerCtx par d) par"
  have pc: "propagateCancel (alloc s (new_TimerCtx par d)) par ?c = (Return (), ?s1)"
    using propagateCancel_fresh[OF v] by simp
  have g1: "grows s ?s1" by (rule linked_grows)
  have "snd (withDeadline s par d now) = ?s1 \<or>
        snd (withDeadline s par d now) = setTimeout ?s1 ?c \<or>
        snd (withDeadline s par d now) = snd (cancel ?s1 ?c True (Some deadlineExceededErr))"
    using False pc
    by (cases "cancel ?s1 ?c True (Some deadlineExceededErr)";
        cases "fst (cancel ?s1 ?c True (Some deadlineExceededErr))")
       (auto simp: withDeadline_def Let_def)
  then show ?thesis
    using g1 grows_trans[OF g1 setTimeout_grows] grows_trans[OF g1 cancel_grows] by auto
qed

lemma exec_grows: "grows s (exec s ev)"
proof (cases ev)
  case (WithCancel par)
  then show ?thesis using withCancel_grows by (simp add: grows_refl)
next
  case (WithDeadline par d now)
  then show ?thesis using withDeadline_grows by (simp add: grows_refl)
next
  case (WithTimeout par t now1 now2)
  then show ?thesis using withDeadline_grows by (simp add: grows_refl withTimeout_def)
next
  case (CallCancel c)
  then show ?thesis using cancel_grows by (simp add: grows_refl)
next
  case (CallDone k)
  then show ?thesis using ctx_done_grows by (simp add: grows_refl)
next
  case (TimerFires h)
  show ?thesis
  proof (cases "find (\<lambda>e. fst e = h) (pending s)")
    case None
    with TimerFires show ?thesis by (simp add: grows_refl)
  next
    case (Some hc)
    let ?s0 = "s\<lparr>pending := filter (\<lambda>e. fst e \<noteq> h) (pending s)\<rparr>"
    have "grows s ?s0" by (simp add: grows_heap_eq)
    from grows_trans[OF this cancel_grows] TimerFires Some show ?thesis
      by (cases hc) simp
  qed
next
  case (RaceSettles i cancelChild e)
  let ?s1 = "s\<lparr>races := take i (races s) @ drop (Suc i) (races s)\<rparr>"
  have "grows s ?s1" by (simp add: grows_heap_eq)
  from this grows_trans[OF this cancel_grows] RaceSettles show ?thesis
    by (simp add: grows_refl Let_def)
qed

lemma run_grows: "grows s (run s evs)"
  unfolding run_def
proof (induction evs arbitrary: s)
  case Nil
  show ?case by (simp add: grows_refl)
next
  case (Cons ev evs)
  from grows_trans[OF exec_grows Cons] show ?case by simp
qed

section \<open>The family example\<close>

lemma ex_family_run:
  "run init [WithCancel backgroundCtx, WithTimeout (Ref 0) (Finite 100) 0 0, WithCancel (Ref 0),
     WithCancel (Ref 1)] = ex_family"
  by (simp add: eval_defs ex_family_def)

lemma ex_family_wf: "wf_state ex_family"
  using reachable_wf[of "[WithCancel backgroundCtx, WithTimeout (Ref 0) (Finite 100) 0 0,
     WithCancel (Ref 0), WithCancel (Ref 1)]"]
  by (simp only: ex_family_run)

lemma ex_family_desc: "3 \<in> desc ex_family 0" "1 \<in> desc ex_family 0" "2 \<notin> desc ex_family 1"
proof -
  have k0: "kids ex_family 0 = [1, 2]" and k1: "kids ex_family 1 = [3]"
    and k3: "kids ex_family 3 = []"
    by (simp_all add: kids_def ex_family_def)
  show 1: "1 \<in> desc ex_family 0" using desc_kid[OF desc_self, of 1 ex_family 0] k0 by simp
  show "3 \<in> desc ex_family 0" using desc_kid[OF 1, of 3] k1 by simp
  have k1': "kids ex_family (Suc 0) = [3]" using k1 by simp
  have "d \<in> desc ex_family 1 \<Longrightarrow> d = 1 \<or> d = 3" for d
    by (induction rule: desc.induct) (auto simp: k1' k3)
  then show "2 \<notin> desc ex_family 1" by fastforce
qed

section \<open>The timer branch of withDeadline\<close>

lemma cancelChildren_none [simp]: "cancelChildren s [] r = (Return (), s)"
  by simp

lemma resolveDone_globals [simp]:
  "next_timer (snd (resolveDone s c)) = next_timer s"
  "races (snd (resolveDone s c)) = races s"
  "length (heap (snd (resolveDone s c))) = length (heap s)"
  by (simp_all add: resolveDone_def split: done_slot.splits)

lemma cancel_leaf_live:
  assumes c: "c < length (heap s)" and lv: "err (heap s ! c) = None"
    and dn: "done_field (heap s ! c) \<noteq> Shared" and ch: "kids s c = []"
    and tn: "timer (heap s ! c) = None"
  shows "cancel s c b (Some e) =
    (Return (),
     let s2 = snd (resolveDone (upd s c (\<lambda>n. n\<lparr>err := Some e\<rparr>)) c)
     in if b then removeChild s2 (parent (heap s ! c)) c else s2)"
proof -
  let ?s0 = "upd s c (\<lambda>n. n\<lparr>err := Some e\<rparr>)"
  obtain y s2 where rd: "resolveDone ?s0 c = (y, s2)" by (cases "resolveDone ?s0 c")
  have s2: "s2 = snd (resolveDone ?s0 c)" using rd by simp
  have y: "y = Return ()"
    using rd dn c by (cases "done_field (heap s ! c)") (auto simp: resolveDone_def heap_upd_nth)
  have k2: "kids s2 c = []"
    unfolding s2 using ch c
    by (simp add: kids_def resolveDone_nth heap_upd_nth split: done_slot.splits)
  have p2: "parent (heap s2 ! c) = parent (heap s ! c)"
    unfolding s2 using c by (simp add: resolveDone_nth heap_upd_nth split: done_slot.splits)
  define s3 where "s3 = (if b then removeChild s2 (parent (heap s ! c)) c else s2)"
  have inner: "CancelCtx_cancel s c b (Some e) = (Return (), s3)"
    unfolding s3_def using c lv rd y k2 p2 by (simp add: CancelCtx_cancel.simps)
  have "timer (heap s2 ! c) = None"
    unfolding s2 using tn c by (simp add: resolveDone_nth heap_upd_nth split: done_slot.splits)
  then have "timer (heap s3 ! c) = None" unfolding s3_def by (simp add: removeChild_nth)
  then have "clearTimer s3 c = s3" by (rule clearTimer_idle)
  with inner have "cancel s c b (Some e) = (Return (), s3)" by (simp add: cancel.simps)
  then show ?thesis unfolding s3_def s2 by (simp add: Let_def)
qed

lemma cancel_leaf_facts:
  assumes c: "c < length (heap s)"
    and dn: "err (heap s ! c) = None \<longrightarrow> done_field (heap s ! c) \<noteq> Shared"
    and ch: "kids s c = []" and tn: "timer (heap s ! c) = None"
  shows "fst (cancel s c b (Some e)) = Return ()"
    "pending (snd (cancel s c b (Some e))) = pending s"
    "next_timer (snd (cancel s c b (Some e))) = next_timer s"
    "err (heap (snd (cancel s c b (Some e))) ! c) \<noteq> None"
    "timer (heap (snd (cancel s c b (Some e))) ! c) = None"
proof -
  have "fst (cancel s c b (Some e)) = Return () \<and>
    pending (snd (cancel s c b (Some e))) = pending s \<and>
    next_timer (snd (cancel s c b (Some e))) = next_timer s"
  proof (cases "err (heap s ! c) = None")
    case True
    with cancel_leaf_live[OF c True _ ch tn, of b e] dn show ?thesis
      by (simp add: Let_def)
  next
    case False
    from cancel_settled_idle[OF c False tn, of b e] show ?thesis by simp
  qed
  then show "fst (cancel s c b (Some e)) = Return ()"
    "pending (snd (cancel s c b (Some e))) = pending s"
    "next_timer (snd (cancel s c b (Some e))) = next_timer s" by simp_all
  have ev: "evolves s (snd (cancel s c b (Some e)))"
    and st: "fst (cancel s c b (Some e)) = Return () \<longrightarrow> err (heap (snd (cancel s c b (Some e))) ! c) \<noteq> None"
    using cancel_evolves(2)[of s c b "Some e" "fst (cancel s c b (Some e))" "snd (cancel s c b (Some e))"] c
    by simp_all
  with \<open>fst (cancel s c b (Some e)) = Return ()\<close>
  show "err (heap (snd (cancel s c b (Some e))) ! c) \<noteq> None" by simp
  show "timer (heap (snd (cancel s c b (Some e))) ! c) = None"
    using evolves_timer_None[OF ev tn] .
qed

text \<open>The branch of \<open>withDeadline\<close> that builds a \<open>TimerCtx\<close>.\<close>

lemma withDeadline_timer_branch:
  assumes v: "valid_ctx s par"
    and nd: "\<not> (case ctx_deadline s par of None \<Rightarrow> False | Some pd \<Rightarrow> date_less pd d)"
  shows "withDeadline s par d now =
     (Return (Ref (length (heap s))),
      let s1 = linked s (new_TimerCtx par d) par; c = length (heap s)
      in if passed d now then snd (cancel s1 c True (Some deadlineExceededErr))
         else if err (heap s1 ! c) = None then setTimeout s1 c else s1)"
proof -
  let ?c = "length (heap s)"
  let ?s1 = "linked s (new_TimerCtx par d) par"
  have pc: "propagateCancel (alloc s (new_TimerCtx par d)) par ?c = (Return (), ?s1)"
    using propagateCancel_fresh[OF v] by simp
  have c1: "?c < length (heap ?s1)" by (simp add: linked_fields)
  have k1: "kids ?s1 ?c = []" using linked_new_kids[OF v] by (simp add: new_TimerCtx_def)
  have t1: "timer (heap ?s1 ! ?c) = None" using linked_new(4)[OF v] by (simp add: new_TimerCtx_def)
  have d1: "err (heap ?s1 ! ?c) = None \<longrightarrow> done_field (heap ?s1 ! ?c) \<noteq> Shared"
    using linked_new_done[OF v, of "new_TimerCtx par d"] by (simp add: new_TimerCtx_def)
  obtain x s2 where cc: "cancel ?s1 ?c True (Some deadlineExceededErr) = (x, s2)"
    by (cases "cancel ?s1 ?c True (Some deadlineExceededErr)")
  have "x = Return ()" using cancel_leaf_facts(1)[OF c1 d1 k1 t1, of True deadlineExceededErr] cc by simp
  with cc nd pc show ?thesis by (auto simp: withDeadline_def Let_def)
qed

lemma withTimeout_overflow_example:
  "new_Date (number_plus 0 (Finite 8640000000000001)) = Invalid_Date \<and>
   fst (withTimeout ex_timer (Ref 0) (Finite 8640000000000001) 0 0) = Return (Ref 1) \<and>
   cls (heap (snd (withTimeout ex_timer (Ref 0) (Finite 8640000000000001) 0 0)) ! 1) = TimerCtx \<and>
   ctx_deadline (snd (withTimeout ex_timer (Ref 0) (Finite 8640000000000001) 0 0)) (Ref 1) =
     Some Invalid_Date \<and>
   pending (snd (withTimeout ex_timer (Ref 0) (Finite 8640000000000001) 0 0)) = [(1, 0), (2, 1)]"
  by (simp add: eval_defs ex_timer_def)

lemma ex_expired_run:
  "run init [WithTimeout backgroundCtx (Finite 100) 0 0, WithCancel (Ref 0), TimerFires 1] =
     ex_expired"
  by (simp add: eval_defs ex_expired_def)

lemma ex_expired_wf: "wf_state ex_expired"
  using reachable_wf[of "[WithTimeout backgroundCtx (Finite 100) 0 0, WithCancel (Ref 0),
     TimerFires 1]"]
  by (simp only: ex_expired_run)

section \<open>The claims\<close>

text \<open>
  C1, as stated, fails where the two deadlines are equal: \<open>withDeadline\<close> compares
  with \<open><\<close>, so a parent deadline equal to the requested one gives a \<open>TimerCtx\<close>
  with a scheduled timer, not the result of \<open>withCancel\<close>.
\<close>

theorem withDeadline_equal_deadline_counterexample:
  "ctx_deadline ex_timer (Ref 0) = Some (Date 100) \<and>
   withDeadline ex_timer (Ref 0) (Date 100) 0 \<noteq> withCancel ex_timer (Ref 0) \<and>
   cls (heap (snd (withDeadline ex_timer (Ref 0) (Date 100) 0)) ! 1) = TimerCtx \<and>
   pending (snd (withDeadline ex_timer (Ref 0) (Date 100) 0)) = [(1, 0), (2, 1)]"
  by (simp add: eval_defs ex_timer_def)

text \<open>
  C1, amended. When the parent has a deadline that is strictly earlier than the
  requested one, \<open>withDeadline\<close> is \<open>withCancel\<close>: it returns a new node of class
  \<open>CancelCtx\<close> and leaves the scheduled timers and the next timer handle as they
  are. In every other case (the parent has no deadline, its deadline is equal to
  or later than the requested one, or one of the two dates is invalid)
  \<open>withDeadline\<close> returns a new \<open>TimerCtx\<close> with the requested deadline; that node
  is live on return exactly when the deadline has not passed and the parent is
  not a settled node, and a timer is scheduled for it exactly when it is live on
  return.
\<close>

theorem withDeadline_dominated:
  assumes "valid_ctx s par"
  shows
   "((\<exists>p. ctx_deadline s par = Some p \<and> date_less p d) \<longrightarrow>
       withDeadline s par d now = withCancel s par \<and>
       fst (withCancel s par) = Return (Ref (length (heap s))) \<and>
       cls (heap (snd (withCancel s par)) ! length (heap s)) = CancelCtx \<and>
       pending (snd (withCancel s par)) = pending s \<and>
       next_timer (snd (withCancel s par)) = next_timer s) \<and>
    (\<not> (\<exists>p. ctx_deadline s par = Some p \<and> date_less p d) \<longrightarrow>
       fst (withDeadline s par d now) = Return (Ref (length (heap s))) \<and>
       cls (heap (snd (withDeadline s par d now)) ! length (heap s)) = TimerCtx \<and>
       ctx_deadline (snd (withDeadline s par d now)) (Ref (length (heap s))) = Some d \<and>
       ((ctx_error (snd (withDeadline s par d now)) (Ref (length (heap s))) = None) =
          (\<not> passed d now \<and> (\<forall>p. par = Ref p \<longrightarrow> err (heap s ! p) = None))) \<and>
       (ctx_error (snd (withDeadline s par d now)) (Ref (length (heap s))) = None \<longrightarrow>
          timer (heap (snd (withDeadline s par d now)) ! length (heap s)) = Some (next_timer s) \<and>
          pending (snd (withDeadline s par d now)) = pending s @ [(next_timer s, length (heap s))] \<and>
          next_timer (snd (withDeadline s par d now)) = Suc (next_timer s)) \<and>
       (ctx_error (snd (withDeadline s par d now)) (Ref (length (heap s))) \<noteq> None \<longrightarrow>
          timer (heap (snd (withDeadline s par d now)) ! length (heap s)) = None \<and>
          pending (snd (withDeadline s par d now)) = pending s \<and>
          next_timer (snd (withDeadline s par d now)) = next_timer s))"
proof (intro conjI impI)
  assume "\<exists>p. ctx_deadline s par = Some p \<and> date_less p d"
  then have eq: "withDeadline s par d now = withCancel s par" by (auto simp: withDeadline_def)
  show "withDeadline s par d now = withCancel s par" by (rule eq)
  show "fst (withCancel s par) = Return (Ref (length (heap s)))"
    "cls (heap (snd (withCancel s par)) ! length (heap s)) = CancelCtx"
    "pending (snd (withCancel s par)) = pending s"
    "next_timer (snd (withCancel s par)) = next_timer s"
    using assms by (simp_all add: withCancel_eq linked_fields linked_new new_CancelCtx_def)
next
  let ?c = "length (heap s)"
  let ?n = "new_TimerCtx par d"
  let ?s1 = "linked s ?n par"
  let ?s' = "snd (withDeadline s par d now)"
  assume "\<not> (\<exists>p. ctx_deadline s par = Some p \<and> date_less p d)"
  then have nd: "\<not> (case ctx_deadline s par of None \<Rightarrow> False | Some pd \<Rightarrow> date_less pd d)"
    by (cases "ctx_deadline s par") simp_all
  note br = withDeadline_timer_branch[OF assms nd, of now]
  show "fst (withDeadline s par d now) = Return (Ref ?c)" using br by simp
  have c1: "?c < length (heap ?s1)" by (simp add: linked_fields)
  have n1: "cls (heap ?s1 ! ?c) = TimerCtx" "deadline_field (heap ?s1 ! ?c) = d"
    "timer (heap ?s1 ! ?c) = None"
    using linked_new(1,3,4)[OF assms, of ?n] by (simp_all add: new_TimerCtx_def)
  have e1: "(err (heap ?s1 ! ?c) = None) = (\<forall>p. par = Ref p \<longrightarrow> err (heap s ! p) = None)"
    using linked_new(5)[OF assms, of ?n]
    by (cases par) (auto simp: new_TimerCtx_def split: option.splits)
  have g1: "pending ?s1 = pending s" "next_timer ?s1 = next_timer s" by (simp_all add: linked_fields)
  have k1: "kids ?s1 ?c = []" using linked_new_kids[OF assms] by (simp add: new_TimerCtx_def)
  have d1: "err (heap ?s1 ! ?c) = None \<longrightarrow> done_field (heap ?s1 ! ?c) \<noteq> Shared"
    using linked_new_done[OF assms, of ?n] by (simp add: new_TimerCtx_def)
  have all: "cls (heap ?s' ! ?c) = TimerCtx \<and>
       deadline_field (heap ?s' ! ?c) = d \<and>
       ((err (heap ?s' ! ?c) = None) =
          (\<not> passed d now \<and> (\<forall>p. par = Ref p \<longrightarrow> err (heap s ! p) = None))) \<and>
       (err (heap ?s' ! ?c) = None \<longrightarrow>
          timer (heap ?s' ! ?c) = Some (next_timer s) \<and>
          pending ?s' = pending s @ [(next_timer s, ?c)] \<and>
          next_timer ?s' = Suc (next_timer s)) \<and>
       (err (heap ?s' ! ?c) \<noteq> None \<longrightarrow>
          timer (heap ?s' ! ?c) = None \<and> pending ?s' = pending s \<and> next_timer ?s' = next_timer s)"
  proof (cases "passed d now")
    case True
    let ?s2 = "snd (cancel ?s1 ?c True (Some deadlineExceededErr))"
    have s': "?s' = ?s2" using br True by (simp add: Let_def)
    note lf = cancel_leaf_facts[OF c1 d1 k1 n1(3), of True deadlineExceededErr]
    have ev: "evolves ?s1 ?s2"
      using cancel_evolves(2)[of ?s1 ?c True "Some deadlineExceededErr"
          "fst (cancel ?s1 ?c True (Some deadlineExceededErr))" ?s2] by simp
    have "cls (heap ?s2 ! ?c) = TimerCtx" "deadline_field (heap ?s2 ! ?c) = d"
      using ev n1 by (simp_all add: evolves_def)
    with lf g1 True show ?thesis unfolding s' by simp
  next
    case False
    show ?thesis
    proof (cases "err (heap ?s1 ! ?c) = None")
      case True
      have s': "?s' = setTimeout ?s1 ?c" using br False True by (simp add: Let_def)
      show ?thesis unfolding s' using False True n1 e1 g1 by (simp add: setTimeout_nth[OF c1])
    next
      case settled: False
      have s': "?s' = ?s1" using br False settled by (simp add: Let_def)
      show ?thesis unfolding s' using False settled n1 e1 g1 by simp
    qed
  qed
  show "cls (heap ?s' ! ?c) = TimerCtx" using all by simp
  show "ctx_deadline ?s' (Ref ?c) = Some d" using all by simp
  show "(ctx_error ?s' (Ref ?c) = None) =
          (\<not> passed d now \<and> (\<forall>p. par = Ref p \<longrightarrow> err (heap s ! p) = None))"
    using all by simp
  show "timer (heap ?s' ! ?c) = Some (next_timer s)"
    "pending ?s' = pending s @ [(next_timer s, ?c)]"
    "next_timer ?s' = Suc (next_timer s)"
    if "ctx_error ?s' (Ref ?c) = None"
    using all that unfolding ctx_error.simps by blast+
  show "timer (heap ?s' ! ?c) = None" "pending ?s' = pending s" "next_timer ?s' = next_timer s"
    if "ctx_error ?s' (Ref ?c) \<noteq> None"
    using all that unfolding ctx_error.simps by blast+
qed

theorem withDeadline_dominated_witness:
  "valid_ctx ex_timer (Ref 0) \<and>
   ctx_deadline ex_timer (Ref 0) = Some (Date 100) \<and> date_less (Date 100) (Date 200) \<and>
   withDeadline ex_timer (Ref 0) (Date 200) 0 = withCancel ex_timer (Ref 0) \<and>
   cls (heap (snd (withCancel ex_timer (Ref 0))) ! 1) = CancelCtx \<and>
   pending (snd (withCancel ex_timer (Ref 0))) = [(1, 0)] \<and>
   \<not> date_less (Date 100) (Date 50) \<and> \<not> passed (Date 50) 0 \<and> err (heap ex_timer ! 0) = None \<and>
   cls (heap (snd (withDeadline ex_timer (Ref 0) (Date 50) 0)) ! 1) = TimerCtx \<and>
   ctx_error (snd (withDeadline ex_timer (Ref 0) (Date 50) 0)) (Ref 1) = None \<and>
   pending (snd (withDeadline ex_timer (Ref 0) (Date 50) 0)) = [(1, 0), (2, 1)] \<and>
   passed (Date 50) 60 \<and>
   ctx_error (snd (withDeadline ex_timer (Ref 0) (Date 50) 60)) (Ref 1) \<noteq> None \<and>
   pending (snd (withDeadline ex_timer (Ref 0) (Date 50) 60)) = [(1, 0)]"
proof -
  have v: "valid_ctx ex_timer (Ref 0)" by (simp add: ex_timer_def)
  have f: "ctx_deadline ex_timer (Ref 0) = Some (Date 100)" "length (heap ex_timer) = 1"
    "pending ex_timer = [(1, 0)]" "next_timer ex_timer = 2" "err (heap ex_timer ! 0) = None"
    by (simp_all add: ex_timer_def)
  from withDeadline_dominated[OF v, of "Date 200" 0] withDeadline_dominated[OF v, of "Date 50" 0]
    withDeadline_dominated[OF v, of "Date 50" 60] v f
  show ?thesis by simp
qed

text \<open>
  C2: after the cancel function of a parent with one child has run, the parent is
  settled and its child set still holds the child. \<open>CancelCtx.cancel\<close> never
  assigns \<open>this.children\<close>, although the field is documented as set to nil by the
  first cancel call.
\<close>

theorem children_kept_after_cancel:
  "CancelFunc ex_pair (Ref 0) = (Return (), ex_pair_cancelled) \<and>
   ctx_error ex_pair_cancelled (Ref 0) = Some cancelledErr \<and>
   children (heap ex_pair_cancelled ! 0) = Some [1]"
  by (simp add: eval_defs ex_pair_def ex_pair_cancelled_def)

text \<open>
  C5: when a cancel call on a node has returned, any further cancel call on it,
  with any arguments that carry a reason, returns normally and gives back the
  very same state: no field of any node, no timer and no race is touched.
\<close>

theorem cancel_twice:
  assumes first: "cancel s c b e = (Return (), s1)"
  shows "cancel s1 c b' (Some r') = (Return (), s1)"
proof -
  obtain y t where cc: "CancelCtx_cancel s c b e = (y, t)"
    by (cases "CancelCtx_cancel s c b e")
  from first cc have y: "y = Return ()" by (cases y) (simp_all add: cancel.simps)
  have len: "length (heap t) = length (heap s)" "length (heap s1) = length (heap s)"
    using cancel_evolves(1)[OF cc] cancel_evolves(2)[OF first] by (simp_all add: evolves_def)
  show ?thesis
  proof (cases "c < length (heap s)")
    case False
    then have "CancelCtx_cancel s1 c b' (Some r') = (Return (), s1)"
      using len by (simp add: CancelCtx_cancel.simps)
    with False len show ?thesis by (simp add: cancel.simps)
  next
    case True
    have settled: "err (heap s1 ! c) \<noteq> None"
      using cancel_evolves(2)[OF first] True by simp
    then have inner: "CancelCtx_cancel s1 c b' (Some r') = (Return (), s1)"
      by (simp add: CancelCtx_cancel.simps)
    show ?thesis
    proof (cases "cls (heap s1 ! c) = TimerCtx")
      case False
      with inner show ?thesis by (simp add: cancel.simps)
    next
      case timer: True
      have s1: "s1 = (if c < length (heap t) \<and> cls (heap t ! c) = TimerCtx then clearTimer t c else t)"
        using first cc y by (simp add: cancel.simps)
      have "cls (heap t ! c) = TimerCtx"
        using timer s1 by (simp add: clearTimer_cls split: if_splits)
      with s1 True len have "s1 = clearTimer t c" by simp
      then have "timer (heap s1 ! c) = None" using True len by (simp add: clearTimer_timer)
      then have "clearTimer s1 c = s1" by (rule clearTimer_idle)
      with inner show ?thesis by (simp add: cancel.simps)
    qed
  qed
qed

theorem cancel_twice_witness:
  "cancel ex_pair 0 True (Some cancelledErr) = (Return (), ex_pair_cancelled) \<and>
   cancel ex_pair_cancelled 0 True (Some cancelledErr) = (Return (), ex_pair_cancelled)"
proof -
  have h: "cancel ex_pair 0 True (Some cancelledErr) = (Return (), ex_pair_cancelled)"
    by (simp add: eval_defs ex_pair_def ex_pair_cancelled_def)
  from cancel_twice[OF h] h show ?thesis by simp
qed




text \<open>
  C10: a node of class \<open>CancelCtx\<close> answers \<open>deadline()\<close> with null. That is the
  case of the context \<open>withCancel\<close> returns, and of the one \<open>withDeadline\<close> and
  \<open>withTimeout\<close> return when the parent's deadline is earlier than the requested
  one, although the parent has a deadline then; and it stays the case after any
  further events.
\<close>

theorem plain_node_no_deadline:
  assumes "valid_ctx s par"
  shows "fst (withCancel s par) = Return (Ref (length (heap s))) \<and>
    ctx_deadline (snd (withCancel s par)) (Ref (length (heap s))) = None \<and>
    (\<forall>p d now. ctx_deadline s par = Some p \<and> date_less p d \<longrightarrow>
       fst (withDeadline s par d now) = Return (Ref (length (heap s))) \<and>
       ctx_deadline (snd (withDeadline s par d now)) (Ref (length (heap s))) = None) \<and>
    (\<forall>p t now1 now2.
       ctx_deadline s par = Some p \<and> date_less p (new_Date (number_plus now1 t)) \<longrightarrow>
       fst (withTimeout s par t now1 now2) = Return (Ref (length (heap s))) \<and>
       ctx_deadline (snd (withTimeout s par t now1 now2)) (Ref (length (heap s))) = None) \<and>
    (\<forall>evs. ctx_deadline (run (snd (withCancel s par)) evs) (Ref (length (heap s))) = None)"
proof -
  let ?c = "length (heap s)"
  let ?s1 = "snd (withCancel s par)"
  have wc: "withCancel s par = (Return (Ref ?c), linked s (new_CancelCtx par) par)"
    using withCancel_eq[OF assms] .
  have c1: "cls (heap ?s1 ! ?c) = CancelCtx" "?c < length (heap ?s1)"
    using assms by (simp_all add: wc linked_new linked_fields new_CancelCtx_def)
  have run: "ctx_deadline (run ?s1 evs) (Ref ?c) = None" for evs
  proof -
    have "cls (heap (run ?s1 evs) ! ?c) = cls (heap ?s1 ! ?c)"
      using run_grows[of ?s1 evs] c1(2) unfolding grows_def by blast
    with c1(1) show ?thesis by simp
  qed
  have dl: "fst (withDeadline s par d now) = Return (Ref ?c) \<and>
       ctx_deadline (snd (withDeadline s par d now)) (Ref ?c) = None"
    if "ctx_deadline s par = Some p" "date_less p d" for p d now
  proof -
    have "withDeadline s par d now = withCancel s par" using that by (simp add: withDeadline_def)
    with c1 wc show ?thesis by simp
  qed
  have "fst (withCancel s par) = Return (Ref ?c)" "ctx_deadline ?s1 (Ref ?c) = None"
    using c1 wc by simp_all
  with dl run show ?thesis by (simp add: withTimeout_def)
qed

theorem plain_node_no_deadline_witness:
  "valid_ctx ex_timer (Ref 0) \<and> ctx_deadline ex_timer (Ref 0) = Some (Date 100) \<and>
   date_less (Date 100) (new_Date (number_plus 0 (Finite 200))) \<and>
   fst (withTimeout ex_timer (Ref 0) (Finite 200) 0 0) = Return (Ref 1) \<and>
   ctx_deadline (snd (withTimeout ex_timer (Ref 0) (Finite 200) 0 0)) (Ref 1) = None \<and>
   ctx_deadline (snd (withCancel ex_timer (Ref 0))) (Ref 1) = None \<and>
   ctx_deadline (run (snd (withCancel ex_timer (Ref 0))) [TimerFires 1, CallCancel 1]) (Ref 1) = None"
proof -
  have h: "valid_ctx ex_timer (Ref 0)" by (simp add: ex_timer_def)
  have d: "ctx_deadline ex_timer (Ref 0) = Some (Date 100)" "length (heap ex_timer) = 1"
    "date_less (Date 100) (new_Date (number_plus 0 (Finite 200)))"
    by (simp_all add: ex_timer_def)
  from plain_node_no_deadline[OF h] h d show ?thesis by simp
qed

text \<open>
  C8: a cancel call without a reason throws at once, from \<open>CancelCtx.cancel\<close> and
  through the virtual call alike, and the state at the throw is the state of the
  call: no error is recorded, no promise resolved, no child visited.
\<close>

theorem cancel_missing_reason:
  "CancelCtx_cancel s c b None = (Throw MissingCancelError, s) \<and>
   cancel s c b None = (Throw MissingCancelError, s)"
  by (simp add: CancelCtx_cancel.simps cancel.simps)

text \<open>
  C3: once \<open>error()\<close> of a node answers an error, it answers that error after any
  cancel call on any node with any arguments, and after any further events:
  cancel functions called, derivations, timers firing, races settling. So a
  node settles at most once, and never becomes live again. The background
  context never answers an error.
\<close>

theorem error_is_final:
  assumes "c < length (heap s)" "ctx_error s (Ref c) = Some e"
  shows "ctx_error (snd (cancel s k b r)) (Ref c) = Some e \<and>
    c < length (heap (run s evs)) \<and> ctx_error (run s evs) (Ref c) = Some e \<and>
    ctx_error (run s evs) backgroundCtx = None"
  using run_grows[of s evs] cancel_grows[of s k b r] assms unfolding grows_def by auto

theorem error_is_final_witness:
  "0 < length (heap (run ex_timer [TimerFires 1])) \<and>
   ctx_error (run ex_timer [TimerFires 1]) (Ref 0) = Some deadlineExceededErr \<and>
   ctx_error (snd (cancel (run ex_timer [TimerFires 1]) 0 True (Some cancelledErr))) (Ref 0) =
     Some deadlineExceededErr \<and>
   ctx_error (run (run ex_timer [TimerFires 1]) [CallCancel 0, WithCancel (Ref 0), CallCancel 1])
     (Ref 0) = Some deadlineExceededErr"
proof -
  have h: "0 < length (heap (run ex_timer [TimerFires 1]))"
    "ctx_error (run ex_timer [TimerFires 1]) (Ref 0) = Some deadlineExceededErr"
    by (simp_all add: eval_defs ex_timer_def)
  from error_is_final[OF h, of 0 True "Some cancelledErr"
      "[CallCancel 0, WithCancel (Ref 0), CallCancel 1]"] h
  show ?thesis by simp
qed




text \<open>
  C7: in every state that executions reach from the initial one, a settled node
  holds no timer handle, and no scheduled timer has a settled node as the target
  of its callback, whatever settled the node: its cancel function, the cascade
  from its parent, or its timer firing.
\<close>

theorem settled_timer_cleared:
  assumes "c < length (heap (run init evs))" "ctx_error (run init evs) (Ref c) \<noteq> None"
  shows "timer (heap (run init evs) ! c) = None \<and> (\<forall>h. (h, c) \<notin> set (pending (run init evs)))"
proof -
  have tm: "timers_ok (run init evs)" using reachable_wf[of evs] by (simp add: wf_state_def)
  have n: "timer (heap (run init evs) ! c) = None" using timers_okD1[OF tm assms(1)] assms(2) by simp
  moreover have "(h, c) \<notin> set (pending (run init evs))" for h
    using timers_okD3[OF tm, of h c] n by auto
  ultimately show ?thesis by simp
qed

theorem settled_timer_cleared_witness:
  "timer (heap (run init [WithTimeout backgroundCtx (Finite 100) 0 0]) ! 0) = Some 1 \<and>
   pending (run init [WithTimeout backgroundCtx (Finite 100) 0 0]) = [(1, 0)] \<and>
   ctx_error (run init [WithTimeout backgroundCtx (Finite 100) 0 0, CallCancel 0]) (Ref 0) =
     Some cancelledErr \<and>
   timer (heap (run init [WithTimeout backgroundCtx (Finite 100) 0 0, CallCancel 0]) ! 0) = None \<and>
   (1, 0) \<notin> set (pending (run init [WithTimeout backgroundCtx (Finite 100) 0 0, CallCancel 0])) \<and>
   ctx_error (run init [WithTimeout backgroundCtx (Finite 100) 0 0, TimerFires 1]) (Ref 0) =
     Some deadlineExceededErr \<and>
   timer (heap (run init [WithTimeout backgroundCtx (Finite 100) 0 0, TimerFires 1]) ! 0) = None \<and>
   ctx_error (run init [WithCancel backgroundCtx, WithTimeout (Ref 0) (Finite 100) 0 0,
     CallCancel 0]) (Ref 1) = Some cancelledErr \<and>
   timer (heap (run init [WithCancel backgroundCtx, WithTimeout (Ref 0) (Finite 100) 0 0,
     CallCancel 0]) ! 1) = None \<and>
   (1, 1) \<notin> set (pending (run init [WithCancel backgroundCtx,
     WithTimeout (Ref 0) (Finite 100) 0 0, CallCancel 0]))"
proof -
  let ?a = "[WithTimeout backgroundCtx (Finite 100) 0 0, CallCancel 0]"
  let ?b = "[WithTimeout backgroundCtx (Finite 100) 0 0, TimerFires 1]"
  let ?c = "[WithCancel backgroundCtx, WithTimeout (Ref 0) (Finite 100) 0 0, CallCancel 0]"
  have before: "timer (heap (run init [WithTimeout backgroundCtx (Finite 100) 0 0]) ! 0) = Some 1"
    "pending (run init [WithTimeout backgroundCtx (Finite 100) 0 0]) = [(1, 0)]"
    by (simp_all add: eval_defs)
  have a: "0 < length (heap (run init ?a))" "ctx_error (run init ?a) (Ref 0) = Some cancelledErr"
    by (simp_all add: eval_defs)
  have b: "0 < length (heap (run init ?b))" "ctx_error (run init ?b) (Ref 0) = Some deadlineExceededErr"
    by (simp_all add: eval_defs)
  have c: "1 < length (heap (run init ?c))" "ctx_error (run init ?c) (Ref 1) = Some cancelledErr"
    by (simp_all add: eval_defs)
  from settled_timer_cleared[OF a(1)] settled_timer_cleared[OF b(1)] settled_timer_cleared[OF c(1)]
    before a b c
  show ?thesis by simp
qed

text \<open>
  C9: in a state that executions reach from the initial one, a cancel call on a
  node, with any arguments, leaves the error
  of the node's parent and of every sibling as it was. More: every node outside
  the node's subtree is left exactly as it was, but for the parent's child set,
  which loses the node when \<open>removeFromParent\<close> is true and the call settles the
  node; nothing is allocated, no race and no timer handle is created, and no
  timer of a node outside the subtree is cleared.
\<close>

theorem cancel_frame_outside:
  assumes "s = run init evs" "c < length (heap s)" "cancel s c b e = (x, s')"
  shows "ctx_error s' (parent (heap s ! c)) = ctx_error s (parent (heap s ! c)) \<and>
    (\<forall>m<length (heap s). m \<noteq> c \<and> parent (heap s ! m) = parent (heap s ! c) \<longrightarrow>
       ctx_error s' (Ref m) = ctx_error s (Ref m)) \<and>
    (\<forall>m<length (heap s). m \<notin> desc s c \<longrightarrow>
       heap s' ! m =
         (if b \<and> e \<noteq> None \<and> err (heap s ! c) = None \<and> parent (heap s ! c) = Ref m
          then (heap s ! m)\<lparr>children := map_option (removeAll c) (children (heap s ! m))\<rparr>
          else heap s ! m)) \<and>
    length (heap s') = length (heap s) \<and> races s' = races s \<and> next_timer s' = next_timer s \<and>
    set (pending s') \<subseteq> set (pending s) \<and>
    (\<forall>(h, k)\<in>set (pending s). k \<notin> desc s c \<longrightarrow> (h, k) \<in> set (pending s'))"
proof -
  have "wf_state s" unfolding assms(1) by (rule reachable_wf)
  then have t: "tree_ok s" and l: "live_ok s" and tm: "timers_ok s"
    by (simp_all add: wf_state_def)
  have ev: "evolves s s'" using cancel_evolves(2)[OF assms(3)] by simp
  have x: "x = Return ()" if "e \<noteq> None"
  proof -
    from that obtain r where "e = Some r" by blast
    with cancel_returns_wf[OF t l tm assms(2)] assms(3) show ?thesis by simp
  qed
  have frame: "heap s' ! m =
         (if b \<and> e \<noteq> None \<and> err (heap s ! c) = None \<and> parent (heap s ! c) = Ref m
          then (heap s ! m)\<lparr>children := map_option (removeAll c) (children (heap s ! m))\<rparr>
          else heap s ! m)" if "m < length (heap s)" "m \<notin> desc s c" for m
    using cancel_frame(2)[OF assms(3) that(2)] that(1) assms(2) x by auto
  have same_err: "err (heap s' ! m) = err (heap s ! m)" if "m < length (heap s)" "m \<notin> desc s c" for m
    using frame[OF that] by (simp split: if_splits)
  have par: "ctx_error s' (Ref p) = ctx_error s (Ref p)" if "parent (heap s ! c) = Ref p" for p
  proof -
    have "p < c" using tree_okD2[OF t assms(2) that] .
    then have "p < length (heap s)" using assms(2) by simp
    from same_err[OF this wf_parent_outside[OF t assms(2) that]] show ?thesis by simp
  qed
  have sib: "ctx_error s' (Ref m) = ctx_error s (Ref m)"
    if "m < length (heap s)" "m \<noteq> c" "parent (heap s ! m) = parent (heap s ! c)" for m
    using same_err[OF that(1) wf_sibling_outside[OF t assms(2) that]] by simp
  have pend: "(h, k) \<in> set (pending s')" if "(h, k) \<in> set (pending s)" "k \<notin> desc s c" for h k
  proof (rule ccontr)
    assume "(h, k) \<notin> set (pending s')"
    from cancel_pending_lost(2)[OF assms(3) that(1) this]
    obtain d where d: "d \<in> desc s c" "timer (heap s ! d) = Some h" by blast
    have dl: "d < length (heap s)" using desc_in_wf[OF t assms(2) d(1)] by simp
    from timers_okD3[OF tm that(1)] have "k < length (heap s)" "timer (heap s ! k) = Some h"
      by simp_all
    from timers_okD2b[OF tm dl this(1) d(2) this(2)] d(1) that(2) show False by simp
  qed
  have glob: "length (heap s') = length (heap s)" "races s' = races s"
    "next_timer s' = next_timer s" "set (pending s') \<subseteq> set (pending s)"
    using ev by (simp_all add: evolves_def)
  have par': "ctx_error s' (parent (heap s ! c)) = ctx_error s (parent (heap s ! c))"
    using par by (cases "parent (heap s ! c)") simp_all
  show ?thesis using par' sib frame pend glob by auto
qed

theorem cancel_frame_outside_witness:
  "ex_family = run init [WithCancel backgroundCtx, WithTimeout (Ref 0) (Finite 100) 0 0,
     WithCancel (Ref 0), WithCancel (Ref 1)] \<and>
   1 < length (heap ex_family) \<and>
   cancel ex_family 1 True (Some cancelledErr) = (Return (), ex_family_child_cancelled) \<and>
   parent (heap ex_family ! 1) = Ref 0 \<and> parent (heap ex_family ! 2) = Ref 0 \<and>
   ctx_error ex_family_child_cancelled (Ref 1) = Some cancelledErr \<and>
   ctx_error ex_family_child_cancelled (Ref 0) = None \<and>
   ctx_error ex_family_child_cancelled (Ref 2) = None \<and>
   2 \<notin> desc ex_family 1 \<and> heap ex_family_child_cancelled ! 2 = heap ex_family ! 2 \<and>
   children (heap ex_family ! 0) = Some [1, 2] \<and>
   children (heap ex_family_child_cancelled ! 0) = Some [2]"
proof -
  note rf = ex_family_run[symmetric]
  have h: "1 < length (heap ex_family)"
    "cancel ex_family 1 True (Some cancelledErr) = (Return (), ex_family_child_cancelled)"
    by (simp_all add: eval_defs ex_family_def ex_family_child_cancelled_def)
  have p: "parent (heap ex_family ! 1) = Ref 0" "parent (heap ex_family ! 2) = Ref 0"
    "ctx_error ex_family (Ref 0) = None" "ctx_error ex_family (Ref 2) = None"
    "2 < length (heap ex_family)" "children (heap ex_family ! 0) = Some [1, 2]"
    by (simp_all add: ex_family_def)
  have r: "ctx_error ex_family_child_cancelled (Ref 1) = Some cancelledErr"
    "children (heap ex_family_child_cancelled ! 0) = Some [2]"
    by (simp_all add: ex_family_child_cancelled_def)
  note f = cancel_frame_outside[OF rf h]
  have "ctx_error ex_family_child_cancelled (Ref 0) = None" using f p by simp
  moreover have "ctx_error ex_family_child_cancelled (Ref 2) = None" using f p by auto
  moreover have "heap ex_family_child_cancelled ! 2 = heap ex_family ! 2"
    using f p ex_family_desc(3) by auto
  ultimately show ?thesis using rf h p r ex_family_desc(3) by simp
qed

end
